theory Spec2Isabelle
  imports Main "HOL-Library.AList"
begin

section \<open>Namespaces (vizier/pyvizier/shared/common.py)\<close>

text \<open>
  Python exceptions that the modelled code can raise implicitly: an out-of-range
  list index and a missing dictionary key.
\<close>

datatype py_error = IndexError | KeyError

text \<open>The escape character of the namespace encoding, a backslash.\<close>

definition bslash :: char where
  "bslash = CHR 0x5C"

definition colon :: char where
  "colon = CHR '':''"

text \<open>
  A \<open>Namespace\<close> is a frozen attrs class with the single field \<open>_as_tuple\<close>, a tuple of
  strings; equality, ordering and hashing are those of the tuple.
\<close>

type_synonym Namespace = "string list"

text \<open>
  \<open>arg.split(':')\<close>: Python's \<open>str.split\<close> with a separator cuts at every occurrence of
  the separator and always returns at least one fragment.
\<close>

fun split_colon :: "string \<Rightarrow> string list" where
  "split_colon [] = [[]]"
| "split_colon (c # cs) =
     (if c = colon then [] # split_colon cs
      else (case split_colon cs of
              [] \<Rightarrow> [[c]]
            | f # fs \<Rightarrow> (c # f) # fs))"

text \<open>\<open>output[-1] += s\<close>: raises IndexError on an empty list.\<close>

definition append_to_last :: "string list \<Rightarrow> string \<Rightarrow> py_error + string list" where
  "append_to_last output s =
     (if output = [] then Inl IndexError
      else Inr (butlast output @ [last output @ s]))"

text \<open>
  One iteration of the loop of \<open>_parse\<close> over the state \<open>(output, join)\<close>.
  \<open>frag and frag[-1] == '\\'\<close> is \<open>frag \<noteq> [] \<and> last frag = bslash\<close>, and \<open>frag[:-1]\<close> is
  \<open>butlast frag\<close>.
\<close>

fun parse_step :: "string list \<times> bool \<Rightarrow> string \<Rightarrow> py_error + (string list \<times> bool)" where
  "parse_step (output, join) frag =
     (if join \<and> frag \<noteq> [] \<and> last frag = bslash then
        (case append_to_last output (colon # butlast frag) of
           Inl e \<Rightarrow> Inl e
         | Inr out \<Rightarrow> Inr (out, True))
      else if join then
        (case append_to_last output (colon # frag) of
           Inl e \<Rightarrow> Inl e
         | Inr out \<Rightarrow> Inr (out, False))
      else if frag \<noteq> [] \<and> last frag = bslash then
        Inr (output @ [butlast frag], True)
      else
        Inr (output @ [frag], False))"

fun parse_loop :: "string list \<times> bool \<Rightarrow> string list \<Rightarrow> py_error + string list" where
  "parse_loop (output, join) [] = Inr output"
| "parse_loop st (frag # fragments) =
     (case parse_step st frag of
        Inl e \<Rightarrow> Inl e
      | Inr st' \<Rightarrow> parse_loop st' fragments)"

text \<open>\<open>_parse\<close>: parses an encoded namespace string into a namespace tuple.\<close>

definition parse :: "string \<Rightarrow> py_error + Namespace" where
  "parse arg = parse_loop ([], False) (split_colon arg)"

text \<open>\<open>arg.lstrip(':')\<close>.\<close>

definition lstrip_colon :: "string \<Rightarrow> string" where
  "lstrip_colon arg = dropWhile (\<lambda>c. c = colon) arg"

text \<open>
  The argument of \<open>Namespace.__init__\<close> is a string, which is parsed, or an iterable
  of strings, which is taken as it is.
\<close>

datatype ns_arg = Str string | Components "string list"

fun Namespace_init :: "ns_arg \<Rightarrow> py_error + Namespace" where
  "Namespace_init (Str arg) =
     (let arg' = lstrip_colon arg
      in if arg' = [] then Inr [] else parse arg')"
| "Namespace_init (Components arg) = Inr arg"

text \<open>\<open>c.translate(_ns_repr_table)\<close>: every colon becomes backslash, colon.\<close>

definition ns_translate :: "string \<Rightarrow> string" where
  "ns_translate c = concat (map (\<lambda>ch. if ch = colon then [bslash, colon] else [ch]) c)"

text \<open>\<open>':'.join(xs)\<close>.\<close>

fun join_colon :: "string list \<Rightarrow> string" where
  "join_colon [] = []"
| "join_colon [x] = x"
| "join_colon (x # y # ys) = x @ colon # join_colon (y # ys)"

text \<open>\<open>Namespace.__repr__\<close>.\<close>

definition Namespace_repr :: "Namespace \<Rightarrow> string" where
  "Namespace_repr ns = join_colon (map ns_translate ns)"

text \<open>\<open>Namespace.__add__\<close>: a string is one more component, an iterable is appended.\<close>

fun Namespace_add :: "Namespace \<Rightarrow> ns_arg \<Rightarrow> Namespace" where
  "Namespace_add ns (Str other) = ns @ [other]"
| "Namespace_add ns (Components other) = ns @ other"

text \<open>
  \<open>Namespace.startswith\<close>: \<open>self[:len(ns_prefix)] == ns_prefix\<close>, with the prefix given as
  a namespace.
\<close>

definition startswith :: "Namespace \<Rightarrow> Namespace \<Rightarrow> bool" where
  "startswith ns pre = (take (length pre) ns = pre)"


section \<open>Metadata (vizier/pyvizier/shared/common.py)\<close>

text \<open>
  \<open>_MetadataSingleNameSpace\<close> is a Python dict from keys to values, and \<open>_stores\<close> is a
  defaultdict from namespaces to such dicts. Python dicts keep insertion order, and
  \<open>namespaces\<close>, \<open>subnamespaces\<close> and \<open>attach\<close> iterate over them, so both are
  association lists: \<open>map_of\<close> reads a key, \<open>AList.update\<close> writes it (in place when the
  key is there, at the end otherwise).
\<close>

type_synonym 'v single_ns = "(string \<times> 'v) list"

type_synonym 'v stores = "(Namespace \<times> 'v single_ns) list"

text \<open>
  Several Metadata objects share one \<open>_stores\<close> object. The heap holds the \<open>_stores\<close>
  objects by reference; \<open>next_ref\<close> is the next free reference.
\<close>

record 'v heap =
  cells :: "nat \<Rightarrow> 'v stores"
  next_ref :: nat

text \<open>
  A Metadata object holds a reference to \<open>_stores\<close> and its \<open>_namespace\<close>. Its third
  field \<open>_store\<close> is always the object \<open>_stores[_namespace]\<close>: \<open>__init__\<close> and \<open>_copy_core\<close>
  set it so, and nothing replaces or removes an entry of \<open>_stores\<close>. It is therefore read
  through \<open>current_store\<close>.
\<close>

record Metadata =
  stores_ref :: nat
  namespace :: Namespace

text \<open>The dict at a namespace of a \<open>_stores\<close> object; a missing entry reads as empty.\<close>

definition the_store :: "'v stores \<Rightarrow> Namespace \<Rightarrow> 'v single_ns" where
  "the_store sts ns = (case map_of sts ns of None \<Rightarrow> [] | Some st \<Rightarrow> st)"

text \<open>
  \<open>_stores[ns]\<close> on the defaultdict: a missing namespace is inserted with an empty dict
  before it is returned.
\<close>

definition stores_getitem :: "'v stores \<Rightarrow> Namespace \<Rightarrow> 'v stores" where
  "stores_getitem sts ns = (case map_of sts ns of None \<Rightarrow> sts @ [(ns, [])] | Some st \<Rightarrow> sts)"

definition current_store :: "'v heap \<Rightarrow> Metadata \<Rightarrow> 'v single_ns" where
  "current_store h m = the_store (cells h (stores_ref m)) (namespace m)"

text \<open>Replaces the contents of the dict object at namespace \<open>ns\<close> of the store \<open>r\<close>.\<close>

definition write_store :: "'v heap \<Rightarrow> nat \<Rightarrow> Namespace \<Rightarrow> 'v single_ns \<Rightarrow> 'v heap" where
  "write_store h r ns st = h\<lparr>cells := (cells h)(r := AList.update ns st (cells h r))\<rparr>"

text \<open>
  \<open>D.update(E)\<close> where \<open>E\<close> has a \<open>keys\<close> method (a dict or a Metadata object):
  \<open>for k in E.keys(): D[k] = E[k]\<close>.
\<close>

definition dict_update_mapping :: "'v single_ns \<Rightarrow> 'v single_ns \<Rightarrow> 'v single_ns" where
  "dict_update_mapping d e =
     fold (\<lambda>k d'. case map_of e k of None \<Rightarrow> d' | Some v \<Rightarrow> AList.update k v d') (map fst e) d"

text \<open>\<open>D.update(E)\<close> where \<open>E\<close> is an iterable of pairs: \<open>for k, v in E: D[k] = v\<close>.\<close>

definition dict_update_pairs :: "'v single_ns \<Rightarrow> (string \<times> 'v) list \<Rightarrow> 'v single_ns" where
  "dict_update_pairs d e = fold (\<lambda>(k, v) d'. AList.update k v d') e d"

text \<open>
  The positional argument of \<open>Metadata.__init__\<close>: none, a dict or an iterable of pairs,
  or an object with \<open>keys\<close> and \<open>__getitem__\<close>, here another Metadata object, whose
  \<open>__iter__\<close> and \<open>__getitem__\<close> read its \<open>_store\<close>.
\<close>

datatype 'v init_arg = NoArg | Pairs "(string \<times> 'v) list" | FromMetadata Metadata

text \<open>
  \<open>Metadata.__init__\<close>: a new \<open>_stores\<close> object, the root namespace, and
  \<open>self._store.update(*args, **kwargs)\<close>.
\<close>

definition Metadata_init ::
  "'v heap \<Rightarrow> 'v init_arg \<Rightarrow> (string \<times> 'v) list \<Rightarrow> 'v heap \<times> Metadata" where
  "Metadata_init h arg kwargs =
     (let r = next_ref h;
          h1 = h\<lparr>cells := (cells h)(r := stores_getitem [] []), next_ref := Suc r\<rparr>;
          self = \<lparr>stores_ref = r, namespace = []\<rparr>;
          st = current_store h1 self;
          st1 = (case arg of
                   NoArg \<Rightarrow> st
                 | Pairs e \<Rightarrow> dict_update_pairs st e
                 | FromMetadata mm \<Rightarrow> dict_update_mapping st (current_store h1 mm));
          st2 = dict_update_pairs st1 kwargs
      in (write_store h1 r [] st2, self))"

text \<open>
  \<open>_copy_core\<close>: \<open>md = Metadata()\<close> makes a new object (with a \<open>_stores\<close> of its own, which
  is dropped two lines later), then the namespace and the shared \<open>_stores\<close> are set, and
  \<open>md._stores[md._namespace]\<close> inserts the namespace into the shared defaultdict when it
  is new.
\<close>

definition copy_core :: "'v heap \<Rightarrow> Metadata \<Rightarrow> Namespace \<Rightarrow> 'v heap \<times> Metadata" where
  "copy_core h self ns =
     (let (h1, md) = Metadata_init h NoArg [];
          md = md\<lparr>namespace := ns\<rparr>;
          md = md\<lparr>stores_ref := stores_ref self\<rparr>;
          h2 = h1\<lparr>cells := (cells h1)(stores_ref md :=
                  stores_getitem (cells h1 (stores_ref md)) (namespace md))\<rparr>
      in (h2, md))"

text \<open>\<open>abs_ns\<close>: a Namespace is used as it is, a string is parsed.\<close>

fun abs_ns :: "'v heap \<Rightarrow> Metadata \<Rightarrow> ns_arg \<Rightarrow> py_error + ('v heap \<times> Metadata)" where
  "abs_ns h self (Components ns) = Inr (copy_core h self ns)"
| "abs_ns h self (Str s) =
     (case Namespace_init (Str s) of
        Inl e \<Rightarrow> Inl e
      | Inr ns \<Rightarrow> Inr (copy_core h self ns))"

text \<open>\<open>ns\<close>: appends one component (a string) or all components of a Namespace.\<close>

definition ns :: "'v heap \<Rightarrow> Metadata \<Rightarrow> ns_arg \<Rightarrow> 'v heap \<times> Metadata" where
  "ns h self components = copy_core h self (Namespace_add (namespace self) components)"

text \<open>\<open>__copy__\<close>.\<close>

definition Metadata_copy :: "'v heap \<Rightarrow> Metadata \<Rightarrow> 'v heap \<times> Metadata" where
  "Metadata_copy h self = copy_core h self (namespace self)"

text \<open>\<open>__getitem__\<close>, \<open>__setitem__\<close>, \<open>__delitem__\<close>, \<open>__iter__\<close> and \<open>__len__\<close>.\<close>

definition Metadata_getitem :: "'v heap \<Rightarrow> Metadata \<Rightarrow> string \<Rightarrow> py_error + 'v" where
  "Metadata_getitem h self key =
     (case map_of (current_store h self) key of None \<Rightarrow> Inl KeyError | Some v \<Rightarrow> Inr v)"

definition Metadata_setitem :: "'v heap \<Rightarrow> Metadata \<Rightarrow> string \<Rightarrow> 'v \<Rightarrow> 'v heap" where
  "Metadata_setitem h self key v =
     write_store h (stores_ref self) (namespace self)
       (AList.update key v (current_store h self))"

definition Metadata_delitem :: "'v heap \<Rightarrow> Metadata \<Rightarrow> string \<Rightarrow> py_error + 'v heap" where
  "Metadata_delitem h self key =
     (case map_of (current_store h self) key of
        None \<Rightarrow> Inl KeyError
      | Some v \<Rightarrow> Inr (write_store h (stores_ref self) (namespace self)
                        (AList.delete key (current_store h self))))"

definition Metadata_iter :: "'v heap \<Rightarrow> Metadata \<Rightarrow> string list" where
  "Metadata_iter h self = map fst (current_store h self)"

definition Metadata_len :: "'v heap \<Rightarrow> Metadata \<Rightarrow> nat" where
  "Metadata_len h self = length (current_store h self)"

text \<open>\<open>namespaces\<close>: every namespace with at least one key.\<close>

definition namespaces :: "'v heap \<Rightarrow> Metadata \<Rightarrow> Namespace list" where
  "namespaces h self = map fst (filter (\<lambda>(n, store). store \<noteq> []) (cells h (stores_ref self)))"

text \<open>
  \<open>subnamespaces\<close>: the non-empty namespaces that start with the current one, as paths
  relative to it (\<open>ns[len(self._namespace):]\<close>).
\<close>

definition subnamespaces :: "'v heap \<Rightarrow> Metadata \<Rightarrow> Namespace list" where
  "subnamespaces h self =
     map (\<lambda>(n, store). drop (length (namespace self)) n)
       (filter (\<lambda>(n, store). store \<noteq> [] \<and> startswith n (namespace self))
          (cells h (stores_ref self)))"

text \<open>
  One iteration of the loop of \<open>attach\<close>:
  \<open>self._stores[self._namespace + ns].update(other.ns(ns))\<close>. Python evaluates the
  receiver first (the defaultdict may insert the target namespace), then the argument
  (a view of \<open>other\<close>, whose keys and values are read from its \<open>_store\<close>), then the update.
\<close>

definition attach_step :: "Metadata \<Rightarrow> Metadata \<Rightarrow> Namespace \<Rightarrow> 'v heap \<Rightarrow> 'v heap" where
  "attach_step self other n h =
     (let target = Namespace_add (namespace self) (Components n);
          h1 = h\<lparr>cells := (cells h)(stores_ref self :=
                  stores_getitem (cells h (stores_ref self)) target)\<rparr>;
          (h2, view) = ns h1 other (Components n);
          st = dict_update_mapping (the_store (cells h2 (stores_ref self)) target)
                 (current_store h2 view)
      in write_store h2 (stores_ref self) target st)"

text \<open>\<open>attach\<close>: the loop runs over the tuple that \<open>other.subnamespaces()\<close> returned.\<close>

definition attach :: "'v heap \<Rightarrow> Metadata \<Rightarrow> Metadata \<Rightarrow> 'v heap" where
  "attach h self other = fold (attach_step self other) (subnamespaces h other) h"


text \<open>\<open>m.abs_ns(n)[key]\<close> for a Namespace \<open>n\<close>: what a reader sees at an absolute namespace.\<close>

definition read_at :: "'v heap \<Rightarrow> Metadata \<Rightarrow> Namespace \<Rightarrow> string \<Rightarrow> py_error + 'v" where
  "read_at h m n key =
     (case abs_ns h m (Components n) of
        Inl e \<Rightarrow> Inl e
      | Inr (h', v) \<Rightarrow> Metadata_getitem h' v key)"

text \<open>
  A small heap for the examples: one backing store with the key \<open>foo\<close> in the root
  namespace, and the root view of it, as \<open>Metadata({'foo': 'Foo'})\<close> makes them.
\<close>

definition heap0 :: "string heap" where
  "heap0 = \<lparr>cells = (\<lambda>_. [])(0 := [([], [(''foo'', ''Foo'')])]), next_ref = 1\<rparr>"

definition root0 :: Metadata where
  "root0 = \<lparr>stores_ref = 0, namespace = []\<rparr>"


text \<open>
  A heap with one backing store that has a key in the root namespace and a key in the
  namespace \<open>a\<close>.
\<close>

definition heap1 :: "string heap" where
  "heap1 = \<lparr>cells = (\<lambda>_. [])(0 := [([], [(''foo'', ''Foo'')]), ([''a''], [(''bar'', ''Bar'')])]),
            next_ref = 1\<rparr>"


text \<open>The keys and values at a namespace of a backing store, as a map.\<close>

definition kv :: "'v heap \<Rightarrow> nat \<Rightarrow> Namespace \<Rightarrow> string \<Rightarrow> 'v option" where
  "kv h r q = map_of (the_store (cells h r) q)"

text \<open>\<open>m.ns(w).attach(other.ns(x))\<close>: the receiver is evaluated first, then the argument.\<close>

definition ns_attach_ns :: "'v heap \<Rightarrow> Metadata \<Rightarrow> string \<Rightarrow> Metadata \<Rightarrow> string \<Rightarrow> 'v heap" where
  "ns_attach_ns h m w other x =
     (let (h1, mw) = ns h m (Str w);
          (h2, ox) = ns h1 other (Str x)
      in attach h2 mw ox)"

text \<open>
  Two backing stores: the first has the keys \<open>old\<close> and \<open>foo\<close> at \<open>w:y:z\<close>, the second the
  key \<open>foo\<close> at \<open>x:y:z\<close>.
\<close>

definition heap2 :: "string heap" where
  "heap2 = \<lparr>cells = (\<lambda>_. [])
              (0 := [([], []), ([''w'', ''y'', ''z''], [(''old'', ''o''), (''foo'', ''no'')])],
               1 := [([], []), ([''x'', ''y'', ''z''], [(''foo'', ''bar'')])]),
            next_ref = 2\<rparr>"

definition root1 :: Metadata where
  "root1 = \<lparr>stores_ref = 1, namespace = []\<rparr>"

text \<open>
  One backing store with three nested namespaces, in the order in which
  \<open>m = Metadata(); m.abs_ns('w:x:x')['k'] = '2'; m.abs_ns('w:x')['k'] = '1';
  m.abs_ns('w:x:x:x')['k'] = '3'; other = m.abs_ns('w')\<close> inserts them; \<open>view_w\<close> is
  \<open>other\<close>.
\<close>

definition heap3 :: "string heap" where
  "heap3 = \<lparr>cells = (\<lambda>_. [])
              (0 := [([], []),
                     ([''w'', ''x'', ''x''], [(''k'', ''2'')]),
                     ([''w'', ''x''], [(''k'', ''1'')]),
                     ([''w'', ''x'', ''x'', ''x''], [(''k'', ''3'')]),
                     ([''w''], [])]),
            next_ref = 1\<rparr>"

definition view_w :: Metadata where
  "view_w = \<lparr>stores_ref = 0, namespace = [''w'']\<rparr>"


section \<open>Metadata.get (vizier/pyvizier/shared/common.py)\<close>






datatype conv_error = AttributeError | TypeError



















section \<open>StudyConfig.to_proto (vizier/pyvizier/oss/study_config.py)\<close>

text \<open>
  The part of \<open>to_proto\<close> that writes the automated stopping spec. The classes of the protos
  are those of \<open>study_pb2.StudySpec\<close>; \<open>AutomatedStoppingConfig.to_proto\<close>, which is outside
  these sources, is the parameter \<open>config_to_proto\<close> and returns a proto of one of the two
  classes. The fields \<open>decay_curve_stopping_spec\<close> and \<open>median_automated_stopping_spec\<close> of
  \<open>StudySpec\<close> are the members of the oneof \<open>automated_stopping_spec\<close>: at most one of them is
  set, and writing one replaces the other.
\<close>

datatype ('d, 'm) auto_stop_proto =
  DecayCurveAutomatedStoppingSpec 'd
| MedianAutomatedStoppingSpec 'm

datatype ('d, 'm) automated_stopping_spec =
  NotSet
| decay_curve_stopping_spec 'd
| median_automated_stopping_spec 'm

text \<open>\<open>isinstance(auto_stop_proto, study_pb2.StudySpec.DecayCurveAutomatedStoppingSpec)\<close>\<close>

fun isinstance_DecayCurve :: "('d, 'm) auto_stop_proto \<Rightarrow> bool" where
  "isinstance_DecayCurve (DecayCurveAutomatedStoppingSpec d) = True"
| "isinstance_DecayCurve (MedianAutomatedStoppingSpec m) = False"

text \<open>
  \<open>field.CopyFrom(auto_stop_proto)\<close> copies a message of the class of the field and raises
  \<open>TypeError\<close> for a message of another class.
\<close>

fun CopyFrom_decay_curve :: "('d, 'm) auto_stop_proto \<Rightarrow> conv_error + 'd" where
  "CopyFrom_decay_curve (DecayCurveAutomatedStoppingSpec d) = Inr d"
| "CopyFrom_decay_curve (MedianAutomatedStoppingSpec m) = Inl TypeError"

fun CopyFrom_median :: "('d, 'm) auto_stop_proto \<Rightarrow> conv_error + 'm" where
  "CopyFrom_median (MedianAutomatedStoppingSpec m) = Inr m"
| "CopyFrom_median (DecayCurveAutomatedStoppingSpec d) = Inl TypeError"

text \<open>
  Lines 251 to 258 of \<open>to_proto\<close>: \<open>study_config\<close> is the oneof of the copy of
  \<open>self._study_config\<close> that \<open>to_proto\<close> starts from, the result is the oneof of the proto
  that \<open>to_proto\<close> returns (no other statement of \<open>to_proto\<close> writes it). Both tests are the
  one of the source.
\<close>

definition to_proto_automated_stopping ::
  "('c \<Rightarrow> ('d, 'm) auto_stop_proto) \<Rightarrow> ('d, 'm) automated_stopping_spec \<Rightarrow> 'c option
     \<Rightarrow> conv_error + ('d, 'm) automated_stopping_spec" where
  "to_proto_automated_stopping config_to_proto study_config automated_stopping_config =
     (case automated_stopping_config of
        None \<Rightarrow> Inr study_config
      | Some c \<Rightarrow>
          (let auto_stop_proto = config_to_proto c in
           if isinstance_DecayCurve auto_stop_proto then
             (case CopyFrom_decay_curve auto_stop_proto of
                Inl e \<Rightarrow> Inl e
              | Inr d \<Rightarrow> Inr (decay_curve_stopping_spec d))
           else if isinstance_DecayCurve auto_stop_proto then
             (case CopyFrom_median auto_stop_proto of
                Inl e \<Rightarrow> Inl e
              | Inr m \<Rightarrow> Inr (median_automated_stopping_spec m))
           else Inr study_config))"


section \<open>Trial parameters (vizier/pyvizier/oss/study_config.py)\<close>

text \<open>
  \<open>ParameterConfig\<close>, \<open>Trial\<close> and \<open>ParameterValue\<close> are defined outside these sources; they are
  modelled by the attributes that \<open>_trial_to_external_values\<close> and \<open>_pytrial_parameters\<close>
  read. A parameter value is its \<open>value\<close>; \<open>ParameterValue.cast\<close> is the parameter \<open>cast\<close>, a
  function of the value and the external type: the model covers the casts that return,
  an error raised inside \<open>cast\<close> is not part of it. A dict is the list of its items in
  insertion order: \<open>AList.update\<close> is the assignment \<open>d[k] = v\<close>, \<open>AList.delete\<close> is
  \<open>d.pop(k)\<close>, \<open>map_of d k\<close> is the lookup.
\<close>

datatype ('v, 't) ParameterConfig =
  ParameterConfig (name: string) (external_type: "'t option")
    (matching_parent_values: "'v list")
    (child_parameter_configs: "('v, 't) ParameterConfig list")

record 'v Trial =
  parameters :: "(string \<times> 'v) list"

text \<open>The three dicts of \<open>_trial_to_external_values\<close>.\<close>

record 'v loop_state =
  parameter_values :: "(string \<times> 'v) list"
  external_values :: "(string \<times> 'v) list"
  remaining_parameters :: "(string \<times> 'v) list"

text \<open>
  The body of the \<open>while\<close> loop after the queue has been updated, for the popped pair
  \<open>(parent_name, pc)\<close>: each \<open>continue\<close> returns the state unchanged.
\<close>

definition loop_body ::
  "('v \<Rightarrow> 't \<Rightarrow> 'v) \<Rightarrow> string option \<Rightarrow> ('v, 't) ParameterConfig \<Rightarrow> 'v loop_state
     \<Rightarrow> 'v loop_state" where
  "loop_body cast parent_name pc st =
     (case map_of (remaining_parameters st) (name pc) of
        None \<Rightarrow> st
      | Some value \<Rightarrow>
          (case parent_name of
             None \<Rightarrow>
               \<lparr>parameter_values = AList.update (name pc) value (parameter_values st),
                external_values = AList.update (name pc)
                  (case external_type pc of None \<Rightarrow> value | Some t \<Rightarrow> cast value t)
                  (external_values st),
                remaining_parameters = AList.delete (name pc) (remaining_parameters st)\<rparr>
           | Some p \<Rightarrow>
               (case map_of (parameter_values st) p of
                  None \<Rightarrow> st
                | Some parent_value \<Rightarrow>
                    if parent_value \<notin> set (matching_parent_values pc) then st
                    else
                      \<lparr>parameter_values = AList.update (name pc) value (parameter_values st),
                       external_values = AList.update (name pc)
                         (case external_type pc of None \<Rightarrow> value | Some t \<Rightarrow> cast value t)
                         (external_values st),
                       remaining_parameters =
                         AList.delete (name pc) (remaining_parameters st)\<rparr>)))"

fun config_count :: "('v, 't) ParameterConfig \<Rightarrow> nat" where
  "config_count (ParameterConfig n t m cs) = Suc (sum_list (map config_count cs))"

text \<open>
  The \<open>while\<close> loop: it ends when the queue \<open>parameter_configs\<close> or the dict
  \<open>remaining_parameters\<close> is empty; otherwise it pops the first pair, appends the children
  of the popped config with its name as parent name, and runs the body.
\<close>

function trial_to_external_values_loop ::
  "('v \<Rightarrow> 't \<Rightarrow> 'v) \<Rightarrow> 'v loop_state \<Rightarrow> (string option \<times> ('v, 't) ParameterConfig) list
     \<Rightarrow> (string \<times> 'v) list" where
  "trial_to_external_values_loop cast st [] = external_values st"
| "trial_to_external_values_loop cast st ((parent_name, pc) # parameter_configs) =
     (if remaining_parameters st = [] then external_values st
      else trial_to_external_values_loop cast (loop_body cast parent_name pc st)
             (parameter_configs
              @ map (\<lambda>child. (Some (name pc), child)) (child_parameter_configs pc)))"
  by pat_completeness auto
termination
proof (relation "measure (\<lambda>(cast, st, q). sum_list (map (\<lambda>(p, pc). config_count pc) q))")
  show "wf (measure (\<lambda>(cast, st, q). sum_list (map (\<lambda>(p, pc). config_count pc) q)))"
    by simp
next
  fix cast :: "'v \<Rightarrow> 't \<Rightarrow> 'v" and st :: "'v loop_state" and parent_name :: "string option"
    and pc :: "('v, 't) ParameterConfig"
    and parameter_configs :: "(string option \<times> ('v, 't) ParameterConfig) list"
  have "config_count pc = Suc (sum_list (map config_count (child_parameter_configs pc)))"
    by (cases pc) simp
  then show "((cast, loop_body cast parent_name pc st,
       parameter_configs @ map (\<lambda>child. (Some (name pc), child)) (child_parameter_configs pc)),
      (cast, st, (parent_name, pc) # parameter_configs))
     \<in> measure (\<lambda>(cast, st, q). sum_list (map (\<lambda>(p, pc). config_count pc) q))"
    by (simp add: comp_def)
qed

text \<open>\<open>_trial_to_external_values\<close>, for the parameter configs of the search space.\<close>

definition trial_to_external_values ::
  "('v \<Rightarrow> 't \<Rightarrow> 'v) \<Rightarrow> ('v, 't) ParameterConfig list \<Rightarrow> 'v Trial \<Rightarrow> (string \<times> 'v) list" where
  "trial_to_external_values cast search_space pytrial =
     trial_to_external_values_loop cast
       \<lparr>parameter_values = [], external_values = [], remaining_parameters = parameters pytrial\<rparr>
       (map (\<lambda>p. (None, p)) search_space)"

text \<open>
  The result of \<open>_pytrial_parameters\<close> maps a name to a value or to a list of values. Its
  only error is the \<open>ValueError\<close> that names the trial.
\<close>

datatype 'v ParameterValueSequence = Scalar 'v | Sequence "'v list"

datatype 'v trial_error = Invalid_trial "'v Trial"

text \<open>
  The first loop of the recombination, for one item of \<open>trial_external_values\<close>.
  \<open>SearchSpaceSelector.parse_multi_dimensional_parameter_name\<close> is outside these sources and
  is the parameter \<open>parse_name\<close>. \<open>multi_dim_params\<close> is a \<open>defaultdict(list)\<close>: a missing
  base name reads as the empty list. The loop variable \<open>name\<close> is \<open>name'\<close>.
\<close>

definition group_step ::
  "(string \<Rightarrow> (string \<times> int) option) \<Rightarrow> string \<times> 'v
     \<Rightarrow> (string \<times> 'v ParameterValueSequence) list \<times> (string \<times> (int \<times> 'v) list) list
     \<Rightarrow> (string \<times> 'v ParameterValueSequence) list \<times> (string \<times> (int \<times> 'v) list) list" where
  "group_step parse_name item acc =
     (case item of (name', value) \<Rightarrow>
      case acc of (trial_final_values, multi_dim_params) \<Rightarrow>
        (case parse_name name' of
           None \<Rightarrow> (AList.update name' (Scalar value) trial_final_values, multi_dim_params)
         | Some (base_name, index) \<Rightarrow>
             (trial_final_values,
              AList.update base_name
                ((case map_of multi_dim_params base_name of None \<Rightarrow> [] | Some l \<Rightarrow> l)
                 @ [(index, value)])
                multi_dim_params)))"

text \<open>
  The second loop sorts each list by index (\<open>list.sort\<close> and \<open>sort_key\<close> are both stable) and
  writes the values under the base name.
\<close>

definition combine ::
  "(string \<Rightarrow> (string \<times> int) option) \<Rightarrow> (string \<times> 'v) list
     \<Rightarrow> (string \<times> 'v ParameterValueSequence) list" where
  "combine parse_name trial_external_values =
     (case fold (group_step parse_name) trial_external_values ([], []) of
        (trial_final_values, multi_dim_params) \<Rightarrow>
          fold (\<lambda>(name', l). AList.update name' (Sequence (map snd (sort_key fst l))))
            multi_dim_params trial_final_values)"

definition pytrial_parameters ::
  "('v \<Rightarrow> 't \<Rightarrow> 'v) \<Rightarrow> (string \<Rightarrow> (string \<times> int) option) \<Rightarrow> ('v, 't) ParameterConfig list
     \<Rightarrow> 'v Trial \<Rightarrow> 'v trial_error + (string \<times> 'v ParameterValueSequence) list" where
  "pytrial_parameters cast parse_name search_space pytrial =
     (let trial_external_values = trial_to_external_values cast search_space pytrial in
      if length trial_external_values \<noteq> length (parameters pytrial)
      then Inl (Invalid_trial pytrial)
      else Inr (combine parse_name trial_external_values))"

text \<open>
  The pairs \<open>(parent_name, pc)\<close> that the queue can hold for a config and its descendants,
  and for a search space; the names of all configs of a search space.
\<close>

fun entries ::
  "string option \<Rightarrow> ('v, 't) ParameterConfig
     \<Rightarrow> (string option \<times> ('v, 't) ParameterConfig) list" where
  "entries parent (ParameterConfig n t m cs) =
     (parent, ParameterConfig n t m cs) # concat (map (entries (Some n)) cs)"

definition all_entries ::
  "('v, 't) ParameterConfig list \<Rightarrow> (string option \<times> ('v, 't) ParameterConfig) list" where
  "all_entries search_space = concat (map (entries None) search_space)"

definition all_names :: "('v, 't) ParameterConfig list \<Rightarrow> string list" where
  "all_names search_space = map (\<lambda>(parent, pc). name pc) (all_entries search_space)"

text \<open>
  A pair \<open>(parent, pc)\<close> can be resolved for the trial parameters \<open>ps\<close>: it has no parent, or
  the trial gives its parent a value among the matching parent values of \<open>pc\<close>.
\<close>

definition parent_matches ::
  "(string \<times> 'v) list \<Rightarrow> string option \<Rightarrow> ('v, 't) ParameterConfig \<Rightarrow> bool" where
  "parent_matches ps parent pc =
     (case parent of
        None \<Rightarrow> True
      | Some p \<Rightarrow>
          (case map_of ps p of
             None \<Rightarrow> False
           | Some v \<Rightarrow> v \<in> set (matching_parent_values pc)))"

text \<open>
  The pairs of index and value of the items of \<open>ext\<close> whose name encodes the base name \<open>b\<close>,
  in the order of \<open>ext\<close>.
\<close>

definition of_base ::
  "(string \<Rightarrow> (string \<times> int) option) \<Rightarrow> string \<Rightarrow> (string \<times> 'v) list \<Rightarrow> (int \<times> 'v) list" where
  "of_base parse_name b ext =
     map (\<lambda>(n, v). (snd (the (parse_name n)), v))
       (filter (\<lambda>(n, v). case parse_name n of None \<Rightarrow> False | Some (b', i) \<Rightarrow> b' = b) ext)"

text \<open>
  The invariant of the loop for the trial parameters \<open>ps\<close> and a set \<open>E\<close> of queue pairs: the
  external values have distinct names, which are names of \<open>ps\<close>; the remaining parameters
  and the parameter values are items of \<open>ps\<close>; and each name with an external value is the
  name of a pair of \<open>E\<close> that can be resolved.
\<close>

definition resolve_inv ::
  "(string \<times> 'v) list \<Rightarrow> (string option \<times> ('v, 't) ParameterConfig) set \<Rightarrow> 'v loop_state
     \<Rightarrow> bool" where
  "resolve_inv ps E st \<longleftrightarrow>
     distinct (map fst (external_values st))
     \<and> fst ` set (external_values st) \<subseteq> fst ` set ps
     \<and> (\<forall>n v. map_of (remaining_parameters st) n = Some v \<longrightarrow> map_of ps n = Some v)
     \<and> (\<forall>n v. map_of (parameter_values st) n = Some v \<longrightarrow> map_of ps n = Some v)
     \<and> (\<forall>n \<in> fst ` set (external_values st).
           \<exists>e \<in> E. name (snd e) = n \<and> parent_matches ps (fst e) (snd e))"

text \<open>
  Modelled from the spec: an instance of \<open>parse_name\<close> for the examples. A name of the form
  \<open>base[index]\<close>, with a decimal index, encodes the base name and the index; any other name
  encodes no index.
\<close>

definition is_digit :: "char \<Rightarrow> bool" where
  "is_digit c = (48 \<le> (of_char c :: nat) \<and> (of_char c :: nat) \<le> 57)"

definition digits_value :: "string \<Rightarrow> int" where
  "digits_value s = int (fold (\<lambda>c n. 10 * n + (of_char c - 48)) s 0)"

definition parse_multi_dimensional_parameter_name :: "string \<Rightarrow> (string \<times> int) option" where
  "parse_multi_dimensional_parameter_name s =
     (case rev s of
        [] \<Rightarrow> None
      | c # r \<Rightarrow>
          if c \<noteq> CHR '']'' then None
          else
            (case dropWhile is_digit r of
               [] \<Rightarrow> None
             | c' # b \<Rightarrow>
                 if c' = CHR ''['' \<and> takeWhile is_digit r \<noteq> []
                 then Some (rev b, digits_value (rev (takeWhile is_digit r)))
                 else None))"

text \<open>
  Search spaces and trials for the examples, with integers or strings as values, no
  external type and the identity as \<open>cast\<close>: a search space with the one parameter \<open>a\<close>;
  a search space with a parameter \<open>a\<close> whose child \<open>c\<close> is active for \<open>a = 'low'\<close>, and the
  same search space with a second config named \<open>c\<close> at the root; a search space with the
  parameters \<open>x[2]\<close>, \<open>x[0]\<close>, \<open>x[1]\<close> and \<open>y\<close>, and one with the parameters \<open>x\<close> and \<open>x[0]\<close>.
\<close>

definition leaf :: "string \<Rightarrow> ('v, unit) ParameterConfig" where
  "leaf n = ParameterConfig n None [] []"


definition space_conditional :: "(string, unit) ParameterConfig list" where
  "space_conditional =
     [ParameterConfig ''a'' None [] [ParameterConfig ''c'' None [''low''] []]]"

definition space_duplicate :: "(string, unit) ParameterConfig list" where
  "space_duplicate =
     [ParameterConfig ''a'' None [] [ParameterConfig ''c'' None [''low''] []], leaf ''c'']"

definition space_multi :: "(int, unit) ParameterConfig list" where
  "space_multi = [leaf ''x[2]'', leaf ''x[0]'', leaf ''x[1]'', leaf ''y'']"

definition space_clash :: "(int, unit) ParameterConfig list" where
  "space_clash = [leaf ''x'', leaf ''x[0]'']"


section \<open>Properties of the namespace codec\<close>

lemma split_colon_not_Nil: "split_colon s \<noteq> []"
  by (induction s) (auto split: list.splits)

text \<open>
  C8: decoding \<open>a\:b\<close> (with one backslash) gives the single component \<open>a:b\<close>, decoding
  \<open>a:b\<close> gives the two components \<open>a\<close> and \<open>b\<close>, and decoding \<open>:a\<close> gives what decoding
  \<open>a\<close> gives.
\<close>

theorem decode_examples:
  "Namespace_init (Str (''a'' @ [bslash] @ '':b'')) = Inr [''a:b'']
   \<and> Namespace_init (Str ''a:b'') = Inr [''a'', ''b'']
   \<and> Namespace_init (Str '':a'') = Namespace_init (Str ''a'')
   \<and> Namespace_init (Str ''a'') = Inr [''a'']"
  by (simp add: parse_def lstrip_colon_def append_to_last_def bslash_def colon_def)

text \<open>
  C1: the docstring of \<open>__repr__\<close> promises \<open>Namespace(repr(x)) == x\<close> for every
  namespace. The encoding escapes colons but not the escape character itself, so a
  component that ends in a backslash is not recovered: the one-component namespace
  \<open>a\\<close> is encoded as \<open>a\\<close> and decoded to \<open>a\<close>. Nor is an empty first component: the
  namespace with the single component \<open>''\<close> is encoded as the empty string and decoded
  to the namespace without components.
\<close>

theorem repr_roundtrip_fails:
  "Namespace_init (Str (Namespace_repr [''a'' @ [bslash]])) = Inr [''a'']
   \<and> [''a'' @ [bslash]] \<noteq> [''a'']
   \<and> Namespace_init (Str (Namespace_repr [''''])) = Inr []"
  by (simp add: Namespace_repr_def ns_translate_def parse_def lstrip_colon_def
      append_to_last_def bslash_def colon_def)

section \<open>Properties of the metadata store\<close>

lemma the_store_stores_getitem [simp]: "the_store (stores_getitem sts n) q = the_store sts q"
  by (auto simp: the_store_def stores_getitem_def split: option.splits if_splits)

lemma the_store_update [simp]:
  "the_store (AList.update n st sts) q = (if q = n then st else the_store sts q)"
  by (simp add: the_store_def update_conv')

lemma Metadata_init_NoArg:
  "Metadata_init h NoArg [] = (h1, md) \<Longrightarrow>
     next_ref h1 = Suc (next_ref h) \<and> stores_ref md = next_ref h \<and> namespace md = []
     \<and> (\<forall>r. r \<noteq> next_ref h \<longrightarrow> cells h1 r = cells h r)"
  by (auto simp: Metadata_init_def Let_def write_store_def dict_update_pairs_def)

lemma copy_core_props:
  assumes "stores_ref m < next_ref h" and "copy_core h m n = (h1, v)"
  shows "stores_ref v = stores_ref m" and "namespace v = n"
    and "next_ref h1 = Suc (next_ref h)"
    and "r < next_ref h \<Longrightarrow> the_store (cells h1 r) q = the_store (cells h r) q"
  using assms
  by (auto simp: copy_core_def Let_def Metadata_init_def write_store_def dict_update_pairs_def
      split: prod.splits)

lemma read_at_eq:
  assumes "stores_ref m < next_ref h"
  shows "read_at h m n key =
     (case map_of (the_store (cells h (stores_ref m)) n) key of
        None \<Rightarrow> Inl KeyError | Some v \<Rightarrow> Inr v)"
proof -
  obtain h1 v where cc: "copy_core h m n = (h1, v)" by (cases "copy_core h m n")
  from copy_core_props[OF assms cc] assms
  have "current_store h1 v = the_store (cells h (stores_ref m)) n"
    by (simp add: current_store_def)
  then show ?thesis by (simp add: read_at_def cc Metadata_getitem_def)
qed

lemma setitem_props:
  "next_ref (Metadata_setitem h m key x) = next_ref h"
  "the_store (cells (Metadata_setitem h m key x) r) q =
     (if r = stores_ref m \<and> q = namespace m then AList.update key x (current_store h m)
      else the_store (cells h r) q)"
  by (auto simp: Metadata_setitem_def write_store_def)

lemma set_then_read:
  assumes "stores_ref a < next_ref h" "stores_ref b = stores_ref a"
  shows "read_at (Metadata_setitem h a key x) b (namespace a) key = Inr x"
  using assms by (simp add: read_at_eq setitem_props update_conv')


lemma map_of_fold_update_keys:
  "map_of (fold (\<lambda>k d'. case map_of e k of None \<Rightarrow> d' | Some v \<Rightarrow> AList.update k v d') ks d) k =
     (if k \<in> set ks then (case map_of e k of None \<Rightarrow> map_of d k | Some v \<Rightarrow> Some v)
      else map_of d k)"
proof (induction ks arbitrary: d)
  case Nil
  then show ?case by simp
next
  case (Cons a ks)
  show ?case
    by (cases "map_of e a") (auto simp: Cons.IH update_conv' split: option.splits)
qed

lemma map_of_dict_update_mapping:
  "map_of (dict_update_mapping d e) = map_of d ++ map_of e"
proof
  fix k
  have "k \<in> set (map fst e) \<longleftrightarrow> map_of e k \<noteq> None"
    by (simp add: map_of_eq_None_iff)
  then show "map_of (dict_update_mapping d e) k = (map_of d ++ map_of e) k"
    unfolding dict_update_mapping_def map_of_fold_update_keys
    by (auto simp: map_add_def split: option.splits)
qed

lemma dict_update_mapping_Nil [simp]: "dict_update_mapping d [] = d"
  by (simp add: dict_update_mapping_def)

text \<open>
  C6: a view made from \<open>m\<close> by \<open>ns\<close>, \<open>abs_ns\<close> or a shallow copy holds the reference of
  \<open>m\<close> to the backing store. A key set through the new view is read through \<open>m\<close> at the
  namespace of the new view, and a key set through \<open>m\<close> is read through the new view at
  the namespace of \<open>m\<close>. A shallow copy keeps the namespace and sees the very dict that \<open>m\<close>
  sees: nothing is copied.
\<close>

theorem views_share_backing_store:
  assumes "stores_ref m < next_ref h"
      and "ns h m c = (h1, v) \<or> abs_ns h m a = Inr (h1, v) \<or> Metadata_copy h m = (h1, v)"
  shows "stores_ref v = stores_ref m
     \<and> read_at (Metadata_setitem h1 v key x) m (namespace v) key = Inr x
     \<and> read_at (Metadata_setitem h1 m key x) v (namespace m) key = Inr x
     \<and> (Metadata_copy h m = (h1, v) \<longrightarrow>
          namespace v = namespace m
        \<and> current_store h1 v = current_store h m
        \<and> Metadata_getitem (Metadata_setitem h1 v key x) m key = Inr x
        \<and> Metadata_getitem (Metadata_setitem h1 m key x) v key = Inr x)"
proof -
  from assms(2) obtain n where cc: "copy_core h m n = (h1, v)"
    by (cases a) (auto simp: ns_def Metadata_copy_def split: sum.splits)
  note p = copy_core_props[OF assms(1) cc]
  have ref: "stores_ref v = stores_ref m" by (rule p(1))
  have valid1: "stores_ref m < next_ref h1" "stores_ref v < next_ref h1"
    using assms(1) p(1,3) by simp_all
  have a: "read_at (Metadata_setitem h1 v key x) m (namespace v) key = Inr x"
    by (rule set_then_read) (simp_all add: valid1 ref)
  have b: "read_at (Metadata_setitem h1 m key x) v (namespace m) key = Inr x"
    by (rule set_then_read) (simp_all add: valid1 ref)
  have c: "namespace v = namespace m
        \<and> current_store h1 v = current_store h m
        \<and> Metadata_getitem (Metadata_setitem h1 v key x) m key = Inr x
        \<and> Metadata_getitem (Metadata_setitem h1 m key x) v key = Inr x"
    if "Metadata_copy h m = (h1, v)"
  proof -
    from that have cc': "copy_core h m (namespace m) = (h1, v)"
      by (simp add: Metadata_copy_def)
    note q = copy_core_props[OF assms(1) cc']
    have nv: "namespace v = namespace m" by (rule q(2))
    have "current_store h1 v = current_store h m"
      using q(4)[OF assms(1)] by (simp add: current_store_def q(1) nv)
    then show ?thesis
      by (simp add: nv Metadata_getitem_def current_store_def setitem_props q(1) update_conv')
  qed
  from ref a b c show ?thesis by blast
qed

theorem views_share_backing_store_witness:
  "stores_ref root0 < next_ref heap0
   \<and> stores_ref (snd (ns heap0 root0 (Str ''a''))) = stores_ref root0
   \<and> read_at (Metadata_setitem (fst (ns heap0 root0 (Str ''a''))) (snd (ns heap0 root0 (Str ''a'')))
        ''k'' ''x'') root0 [''a''] ''k'' = Inr ''x''
   \<and> read_at heap0 root0 [''a''] ''k'' = Inl KeyError"
  using views_share_backing_store [of root0 heap0 "Str ''a''" "fst (ns heap0 root0 (Str ''a''))"
      "snd (ns heap0 root0 (Str ''a''))" "Str []" "''k''" "''x''"]
  by (simp add: heap0_def root0_def ns_def copy_core_def Metadata_init_def write_store_def
      dict_update_pairs_def current_store_def the_store_def stores_getitem_def read_at_def
      Metadata_getitem_def Let_def)

lemma Metadata_init_FromMetadata:
  assumes "stores_ref mm < next_ref h"
      and "Metadata_init h (FromMetadata mm) [] = (h1, new)"
  shows "stores_ref new = next_ref h" and "namespace new = []"
    and "next_ref h1 = Suc (next_ref h)"
    and "cells h1 (next_ref h) = [([], dict_update_mapping [] (current_store h mm))]"
    and "r \<noteq> next_ref h \<Longrightarrow> cells h1 r = cells h r"
  using assms
  by (auto simp: Metadata_init_def Let_def write_store_def dict_update_pairs_def
      current_store_def the_store_def stores_getitem_def)

text \<open>
  C10: \<open>Metadata(mm)\<close> makes a new backing store and copies into its root namespace the
  keys and values of the current namespace of \<open>mm\<close>. The new store has no other
  namespace, whatever else the store of \<open>mm\<close> holds; the store of \<open>mm\<close> is left as it
  was, and a key set through the new object is not seen through \<open>mm\<close> at any namespace.
\<close>

theorem Metadata_of_view_is_independent:
  assumes "stores_ref mm < next_ref h"
      and "Metadata_init h (FromMetadata mm) [] = (h1, new)"
  shows "namespace new = []
     \<and> stores_ref new \<noteq> stores_ref mm
     \<and> (\<forall>key. Metadata_getitem h1 new key = Metadata_getitem h mm key)
     \<and> (\<forall>n. n \<noteq> [] \<longrightarrow> the_store (cells h1 (stores_ref new)) n = [])
     \<and> set (namespaces h1 new) \<subseteq> {[]}
     \<and> cells h1 (stores_ref mm) = cells h (stores_ref mm)
     \<and> (\<forall>key x. cells (Metadata_setitem h1 new key x) (stores_ref mm) = cells h (stores_ref mm))
     \<and> (\<forall>key x n k. read_at (Metadata_setitem h1 new key x) mm n k = read_at h mm n k)"
proof -
  note p = Metadata_init_FromMetadata[OF assms]
  have neq: "stores_ref new \<noteq> stores_ref mm" using assms(1) p(1) by simp
  have neq': "stores_ref mm \<noteq> next_ref h" using assms(1) by simp
  have g: "Metadata_getitem h1 new key = Metadata_getitem h mm key" for key
    by (simp add: Metadata_getitem_def current_store_def p(1,2,4) the_store_def
        map_of_dict_update_mapping)
  have e: "the_store (cells h1 (stores_ref new)) n = []" if "n \<noteq> []" for n
    using that by (simp add: p(1,4) the_store_def)
  have nss: "set (namespaces h1 new) \<subseteq> {[]}"
    by (auto simp: namespaces_def p(1,4))
  have c: "cells h1 (stores_ref mm) = cells h (stores_ref mm)"
    by (rule p(5)[OF neq'])
  have w: "cells (Metadata_setitem h1 new key x) (stores_ref mm) = cells h (stores_ref mm)"
    for key x
    using neq c by (simp add: Metadata_setitem_def write_store_def)
  have r: "read_at (Metadata_setitem h1 new key x) mm n k = read_at h mm n k" for key x n k
    using assms(1) p(3) w[of key x] by (simp add: read_at_eq setitem_props(1))
  from p(2) neq g e nss c w r show ?thesis by blast
qed

theorem Metadata_of_view_is_independent_witness:
  "stores_ref \<lparr>stores_ref = 0, namespace = [''a'']\<rparr> < next_ref heap1
   \<and> Metadata_getitem (fst (Metadata_init heap1 (FromMetadata \<lparr>stores_ref = 0, namespace = [''a'']\<rparr>) []))
       (snd (Metadata_init heap1 (FromMetadata \<lparr>stores_ref = 0, namespace = [''a'']\<rparr>) [])) ''bar'' = Inr ''Bar''
   \<and> Metadata_getitem (fst (Metadata_init heap1 (FromMetadata \<lparr>stores_ref = 0, namespace = [''a'']\<rparr>) []))
       (snd (Metadata_init heap1 (FromMetadata \<lparr>stores_ref = 0, namespace = [''a'']\<rparr>) [])) ''foo'' = Inl KeyError
   \<and> namespaces (fst (Metadata_init heap1 (FromMetadata \<lparr>stores_ref = 0, namespace = [''a'']\<rparr>) []))
       (snd (Metadata_init heap1 (FromMetadata \<lparr>stores_ref = 0, namespace = [''a'']\<rparr>) [])) = [[]]
   \<and> namespaces heap1 \<lparr>stores_ref = 0, namespace = [''a'']\<rparr> = [[], [''a'']]"
  using Metadata_of_view_is_independent [of "\<lparr>stores_ref = 0, namespace = [''a'']\<rparr>" heap1
      "fst (Metadata_init heap1 (FromMetadata \<lparr>stores_ref = 0, namespace = [''a'']\<rparr>) [])"
      "snd (Metadata_init heap1 (FromMetadata \<lparr>stores_ref = 0, namespace = [''a'']\<rparr>) [])"]
  by (simp add: heap1_def Metadata_init_def write_store_def dict_update_mapping_def
      dict_update_pairs_def current_store_def the_store_def stores_getitem_def
      Metadata_getitem_def namespaces_def Let_def)

lemma map_add_twice: "(a ++ b) ++ b = a ++ b"
  by (rule ext) (simp add: map_add_def split: option.splits)

lemma attach_step_next_ref: "next_ref (attach_step self other n h) = Suc (next_ref h)"
  by (simp add: attach_step_def Let_def ns_def copy_core_def Metadata_init_def write_store_def
      dict_update_pairs_def split: prod.splits)

lemma attach_step_the_store:
  assumes "stores_ref self < next_ref h" "stores_ref other < next_ref h" "r < next_ref h"
  shows "the_store (cells (attach_step self other n h) r) q =
     (if r = stores_ref self \<and> q = namespace self @ n
      then dict_update_mapping (the_store (cells h (stores_ref self)) (namespace self @ n))
             (the_store (cells h (stores_ref other)) (namespace other @ n))
      else the_store (cells h r) q)"
  using assms
  by (auto simp: attach_step_def Let_def ns_def copy_core_def Metadata_init_def write_store_def
      dict_update_pairs_def current_store_def split: prod.splits)

lemma attach_step_kv:
  assumes "stores_ref self < next_ref h" "stores_ref other < next_ref h" "r < next_ref h"
  shows "kv (attach_step self other n h) r q =
     (if r = stores_ref self \<and> q = namespace self @ n
      then kv h r q ++ kv h (stores_ref other) (namespace other @ n)
      else kv h r q)"
  by (simp add: kv_def attach_step_the_store[OF assms] map_of_dict_update_mapping)

lemma fold_attach_step_next_ref:
  "next_ref h \<le> next_ref (fold (attach_step self other) ps h)"
proof (induction ps arbitrary: h)
  case Nil
  then show ?case by simp
next
  case (Cons p ps)
  have "next_ref h \<le> next_ref (attach_step self other p h)"
    by (simp add: attach_step_next_ref)
  also have "\<dots> \<le> next_ref (fold (attach_step self other) ps (attach_step self other p h))"
    by (rule Cons.IH)
  finally show ?case by simp
qed

lemma fold_attach_step_kv:
  assumes "stores_ref self < next_ref h" "stores_ref other < next_ref h" "r < next_ref h"
      and "\<forall>p\<in>set ps. \<forall>p'\<in>set ps.
             \<not> (stores_ref self = stores_ref other \<and> namespace self @ p = namespace other @ p')"
  shows "kv (fold (attach_step self other) ps h) r q =
     (if r = stores_ref self \<and> (\<exists>p\<in>set ps. q = namespace self @ p)
      then kv h r q ++ kv h (stores_ref other) (namespace other @ drop (length (namespace self)) q)
      else kv h r q)"
  using assms
proof (induction ps arbitrary: h)
  case Nil
  then show ?case by simp
next
  case (Cons p ps)
  let ?h = "attach_step self other p h"
  have v: "stores_ref self < next_ref ?h" "stores_ref other < next_ref ?h" "r < next_ref ?h"
    using Cons.prems(1-3) by (simp_all add: attach_step_next_ref)
  have no: "\<forall>p\<in>set ps. \<forall>p'\<in>set ps.
             \<not> (stores_ref self = stores_ref other \<and> namespace self @ p = namespace other @ p')"
    using Cons.prems(4) by simp
  have src: "kv ?h (stores_ref other) (namespace other @ p') =
             kv h (stores_ref other) (namespace other @ p')" if "p' \<in> set (p # ps)" for p'
    using Cons.prems(4) that
    by (subst attach_step_kv[OF Cons.prems(1,2,2)]) auto
  have step: "kv ?h r q =
     (if r = stores_ref self \<and> q = namespace self @ p
      then kv h r q ++ kv h (stores_ref other) (namespace other @ p)
      else kv h r q)"
    by (rule attach_step_kv[OF Cons.prems(1-3)])
  show ?case
  proof (cases "r = stores_ref self \<and> (\<exists>p'\<in>set ps. q = namespace self @ p')")
    case True
    then obtain p' where p': "p' \<in> set ps" "q = namespace self @ p'" by blast
    have "kv (fold (attach_step self other) (p # ps) h) r q =
          kv ?h r q ++ kv ?h (stores_ref other) (namespace other @ p')"
      using True p' Cons.IH[OF v no] by auto
    also have "\<dots> = kv ?h r q ++ kv h (stores_ref other) (namespace other @ p')"
      using src[of p'] p'(1) by simp
    also have "\<dots> = kv h r q ++ kv h (stores_ref other) (namespace other @ p')"
      using step p'(2) by (auto simp: map_add_twice)
    finally show ?thesis using True p' by auto
  next
    case False
    have "kv (fold (attach_step self other) (p # ps) h) r q = kv ?h r q"
      using False Cons.IH[OF v no] by auto
    then show ?thesis using False step by auto
  qed
qed


lemma read_at_kv:
  assumes "stores_ref m < next_ref h"
  shows "read_at h m n key =
     (case kv h (stores_ref m) n key of None \<Rightarrow> Inl KeyError | Some v \<Rightarrow> Inr v)"
  by (simp add: read_at_eq[OF assms] kv_def)

lemma copy_core_kv:
  assumes "stores_ref m < next_ref h" "copy_core h m n = (h1, v)" "r < next_ref h"
  shows "kv h1 r q = kv h r q"
  by (simp add: kv_def copy_core_props(4)[OF assms])

lemma the_store_nonempty_mem: "the_store sts n \<noteq> [] \<Longrightarrow> (n, the_store sts n) \<in> set sts"
  by (auto simp: the_store_def split: option.splits dest: map_of_SomeD)

lemma subnamespaces_mem:
  assumes "the_store (cells h (stores_ref v)) (namespace v @ p) \<noteq> []"
  shows "p \<in> set (subnamespaces h v)"
proof -
  let ?e = "(namespace v @ p, the_store (cells h (stores_ref v)) (namespace v @ p))"
  have "?e \<in> set (filter (\<lambda>(n, store). store \<noteq> [] \<and> startswith n (namespace v))
                    (cells h (stores_ref v)))"
    using the_store_nonempty_mem[OF assms] assms by (simp add: startswith_def)
  then have "(\<lambda>(n, store). drop (length (namespace v)) n) ?e \<in> set (subnamespaces h v)"
    unfolding subnamespaces_def set_map by (rule imageI)
  then show ?thesis by simp
qed

lemma append_eq_startswith:
  assumes "a @ p = b @ p'"
  shows "startswith a b \<or> startswith b a"
proof (cases "length b \<le> length a")
  case True
  have "take (length b) (a @ p) = take (length b) (b @ p')" using assms by simp
  with True show ?thesis by (simp add: startswith_def)
next
  case False
  have "take (length a) (a @ p) = take (length a) (b @ p')" using assms by simp
  with False show ?thesis by (simp add: startswith_def)
qed

lemma ns_attach_ns_read:
  assumes "stores_ref m < next_ref h" and "stores_ref other < next_ref h"
      and "stores_ref m \<noteq> stores_ref other
           \<or> (\<not> startswith (namespace m @ [w]) (namespace other @ [x])
              \<and> \<not> startswith (namespace other @ [x]) (namespace m @ [w]))"
      and "ns h m (Str w) = (h1, mw)" and "ns h1 other (Str x) = (h2, ox)"
      and "h3 = attach h2 mw ox"
  shows "(\<forall>p key v. read_at h other (namespace other @ [x] @ p) key = Inr v \<longrightarrow>
             read_at h3 m (namespace m @ [w] @ p) key = Inr v)
       \<and> (\<forall>p key. read_at h other (namespace other @ [x] @ p) key = Inl KeyError \<longrightarrow>
             read_at h3 m (namespace m @ [w] @ p) key = read_at h m (namespace m @ [w] @ p) key)
       \<and> (\<forall>q key. \<not> startswith q (namespace m @ [w]) \<longrightarrow>
             read_at h3 m q key = read_at h m q key)"
proof -
  let ?tgt = "namespace m @ [w]" and ?src = "namespace other @ [x]"
  let ?rs = "stores_ref m" and ?ro = "stores_ref other"
  from assms(4) have c1: "copy_core h m ?tgt = (h1, mw)" by (simp add: ns_def)
  note p1 = copy_core_props[OF assms(1) c1]
  have vo1: "?ro < next_ref h1" and vm1: "?rs < next_ref h1"
    using assms(1,2) p1(3) by simp_all
  from assms(5) have c2: "copy_core h1 other ?src = (h2, ox)" by (simp add: ns_def)
  note p2 = copy_core_props[OF vo1 c2]
  have vm2: "stores_ref mw < next_ref h2" and vo2: "stores_ref ox < next_ref h2"
    using vm1 vo1 p1(1) p2(1,3) by simp_all
  have kv2: "kv h2 r q = kv h r q" if "r < next_ref h" for r q
  proof -
    have "kv h2 r q = kv h1 r q"
      using that p1(3) by (intro copy_core_kv[OF vo1 c2]) simp
    also have "\<dots> = kv h r q" by (rule copy_core_kv[OF assms(1) c1 that])
    finally show ?thesis .
  qed
  have no: "\<forall>p\<in>set (subnamespaces h2 ox). \<forall>p'\<in>set (subnamespaces h2 ox).
              \<not> (stores_ref mw = stores_ref ox \<and> namespace mw @ p = namespace ox @ p')"
    using assms(3) append_eq_startswith[of ?tgt _ ?src] by (auto simp: p1(1,2) p2(1,2))
  have v3: "?rs < next_ref h3"
    using vm1 p2(3) fold_attach_step_next_ref[of h2 mw ox "subnamespaces h2 ox"]
    by (simp add: assms(6) attach_def)
  have fin: "kv h3 ?rs q =
     (if \<exists>p\<in>set (subnamespaces h2 ox). q = ?tgt @ p
      then kv h ?rs q ++ kv h ?ro (?src @ drop (length ?tgt) q)
      else kv h ?rs q)" for q
    using fold_attach_step_kv[OF vm2 vo2 vm2 no, of q] kv2[OF assms(1)] kv2[OF assms(2)]
    by (simp add: assms(6) attach_def p1(1,2) p2(1,2))
  have sub: "kv h3 ?rs (?tgt @ p) = kv h ?rs (?tgt @ p) ++ kv h ?ro (?src @ p)" for p
  proof (cases "p \<in> set (subnamespaces h2 ox)")
    case True
    then show ?thesis using fin[of "?tgt @ p"] by auto
  next
    case False
    then have "the_store (cells h2 (stores_ref ox)) (namespace ox @ p) = []"
      using subnamespaces_mem[of h2 ox p] by blast
    then have "kv h2 ?ro (?src @ p) = Map.empty"
      by (simp add: kv_def p2(1,2))
    then have "kv h ?ro (?src @ p) = Map.empty"
      using kv2[OF assms(2)] by simp
    moreover have "kv h3 ?rs (?tgt @ p) = kv h ?rs (?tgt @ p)"
      using False fin[of "?tgt @ p"] by auto
    ultimately show ?thesis by simp
  qed
  have out: "kv h3 ?rs q = kv h ?rs q" if "\<not> startswith q ?tgt" for q
  proof -
    have "\<not> (\<exists>p\<in>set (subnamespaces h2 ox). q = ?tgt @ p)"
      using that by (auto simp: startswith_def)
    then show ?thesis using fin[of q] by simp
  qed
  have A: "read_at h3 m (namespace m @ [w] @ p) key = Inr v"
    if "read_at h other (namespace other @ [x] @ p) key = Inr v" for p key v
    using that sub[of p]
    by (auto simp: read_at_kv[OF v3] read_at_kv[OF assms(2)] map_add_def split: option.splits)
  have B: "read_at h3 m (namespace m @ [w] @ p) key = read_at h m (namespace m @ [w] @ p) key"
    if "read_at h other (namespace other @ [x] @ p) key = Inl KeyError" for p key
    using that sub[of p]
    by (auto simp: read_at_kv[OF v3] read_at_kv[OF assms(1)] read_at_kv[OF assms(2)]
        map_add_def split: option.splits)
  have C: "read_at h3 m q key = read_at h m q key" if "\<not> startswith q (namespace m @ [w])"
    for q key
    using out[OF that] by (simp add: read_at_kv[OF v3] read_at_kv[OF assms(1)])
  from A B C show ?thesis by blast
qed


text \<open>
  C2, as amended: \<open>m.ns(w).attach(other.ns(x))\<close>, for views \<open>m\<close> and \<open>other\<close> over different
  backing stores, or over one store when neither of the namespaces \<open>m.namespace + w\<close> and
  \<open>other.namespace + x\<close> starts with the other. For every relative path \<open>p\<close> and key: a
  key that \<open>other\<close> has at \<open>x + p\<close> is afterwards read with that value at \<open>w + p\<close> below the
  namespace of \<open>m\<close>; a key that \<open>other\<close> does not have there is read at \<open>w + p\<close> as before;
  and every namespace of the store of \<open>m\<close> that does not start with \<open>m.namespace + w\<close> is
  read as before. For \<open>m\<close> at the root, \<open>namespace m @ [w] @ p\<close> is the absolute namespace
  \<open>w + p\<close> of the claim.
\<close>

theorem attach_merges_per_key:
  assumes "stores_ref m < next_ref h" and "stores_ref other < next_ref h"
      and "stores_ref m \<noteq> stores_ref other
           \<or> (\<not> startswith (namespace m @ [w]) (namespace other @ [x])
              \<and> \<not> startswith (namespace other @ [x]) (namespace m @ [w]))"
  shows "(\<forall>p key v. read_at h other (namespace other @ [x] @ p) key = Inr v \<longrightarrow>
             read_at (ns_attach_ns h m w other x) m (namespace m @ [w] @ p) key = Inr v)
       \<and> (\<forall>p key. read_at h other (namespace other @ [x] @ p) key = Inl KeyError \<longrightarrow>
             read_at (ns_attach_ns h m w other x) m (namespace m @ [w] @ p) key =
             read_at h m (namespace m @ [w] @ p) key)
       \<and> (\<forall>q key. \<not> startswith q (namespace m @ [w]) \<longrightarrow>
             read_at (ns_attach_ns h m w other x) m q key = read_at h m q key)"
proof -
  obtain h1 mw where a: "ns h m (Str w) = (h1, mw)" by (cases "ns h m (Str w)")
  obtain h2 ox where b: "ns h1 other (Str x) = (h2, ox)" by (cases "ns h1 other (Str x)")
  have c: "ns_attach_ns h m w other x = attach h2 mw ox"
    by (simp add: ns_attach_ns_def a b)
  show ?thesis
    unfolding c by (rule ns_attach_ns_read[OF assms a b refl])
qed

theorem attach_merges_per_key_witness:
  "stores_ref root0 < next_ref heap2 \<and> stores_ref root1 < next_ref heap2
   \<and> stores_ref root0 \<noteq> stores_ref root1
   \<and> read_at heap2 root1 [''x'', ''y'', ''z''] ''foo'' = Inr ''bar''
   \<and> read_at heap2 root0 [''w'', ''y'', ''z''] ''foo'' = Inr ''no''
   \<and> read_at (ns_attach_ns heap2 root0 ''w'' root1 ''x'') root0 [''w'', ''y'', ''z''] ''foo''
       = Inr ''bar''
   \<and> read_at heap2 root1 [''x'', ''y'', ''z''] ''old'' = Inl KeyError
   \<and> read_at (ns_attach_ns heap2 root0 ''w'' root1 ''x'') root0 [''w'', ''y'', ''z''] ''old''
       = Inr ''o''"
proof -
  have v: "stores_ref root0 < next_ref heap2" "stores_ref root1 < next_ref heap2"
    and d: "stores_ref root0 \<noteq> stores_ref root1"
    by (simp_all add: root0_def root1_def heap2_def)
  note T = attach_merges_per_key [OF v disjI1 [OF d], where w = "''w''" and x = "''x''"]
  note T1 = T [THEN conjunct1, rule_format]
  note T2 = T [THEN conjunct2, THEN conjunct1, rule_format]
  have n: "namespace root0 = []" "namespace root1 = []"
    by (simp_all add: root0_def root1_def)
  have c: "cells heap2 (stores_ref root0) =
             [([], []), ([''w'', ''y'', ''z''], [(''old'', ''o''), (''foo'', ''no'')])]"
          "cells heap2 (stores_ref root1) =
             [([], []), ([''x'', ''y'', ''z''], [(''foo'', ''bar'')])]"
    by (simp_all add: root0_def root1_def heap2_def)
  have e1: "read_at heap2 root1 [''x'', ''y'', ''z''] ''foo'' = Inr ''bar''"
    and e2: "read_at heap2 root1 [''x'', ''y'', ''z''] ''old'' = Inl KeyError"
    and e3: "read_at heap2 root0 [''w'', ''y'', ''z''] ''old'' = Inr ''o''"
    and e4: "read_at heap2 root0 [''w'', ''y'', ''z''] ''foo'' = Inr ''no''"
    unfolding read_at_eq[OF v(1)] read_at_eq[OF v(2)] c
    by (simp_all add: the_store_def)
  have a: "read_at (ns_attach_ns heap2 root0 ''w'' root1 ''x'') root0
             [''w'', ''y'', ''z''] ''foo'' = Inr ''bar''"
    using T1 [of "[''y'', ''z'']" "''foo''" "''bar''"] e1 by (simp add: n)
  have b: "read_at (ns_attach_ns heap2 root0 ''w'' root1 ''x'') root0
             [''w'', ''y'', ''z''] ''old'' = Inr ''o''"
    using T2 [of "[''y'', ''z'']" "''old''"] e2 e3 by (simp add: n)
  show ?thesis
    by (intro conjI v d e1 e2 e4 a b)
qed

lemma copy_core_cells:
  assumes "stores_ref m < next_ref h" and "copy_core h m n = (h1, v)"
  shows "cells h1 (stores_ref m) = stores_getitem (cells h (stores_ref m)) n"
  using assms
  by (auto simp: copy_core_def Let_def Metadata_init_def write_store_def dict_update_pairs_def
      split: prod.splits)

lemma attach_step_cells_same:
  assumes "stores_ref self < next_ref h" and "stores_ref other = stores_ref self"
  shows "cells (attach_step self other n h) (stores_ref self) =
     AList.update (namespace self @ n)
       (dict_update_mapping
          (the_store (cells h (stores_ref self)) (namespace self @ n))
          (the_store (cells h (stores_ref self)) (namespace other @ n)))
       (stores_getitem (stores_getitem (cells h (stores_ref self)) (namespace self @ n))
          (namespace other @ n))"
  using assms
  by (auto simp: attach_step_def Let_def ns_def copy_core_def Metadata_init_def write_store_def
      dict_update_pairs_def current_store_def split: prod.splits)


lemma ns_attach_ns_heap3:
  "cells (ns_attach_ns heap3 root0 ''w'' view_w ''x'') 0 =
     [([], []),
      ([''w'', ''x'', ''x''], [(''k'', ''3'')]),
      ([''w'', ''x''], [(''k'', ''2'')]),
      ([''w'', ''x'', ''x'', ''x''], [(''k'', ''3'')]),
      ([''w''], [(''k'', ''2'')])]
   \<and> 0 < next_ref (ns_attach_ns heap3 root0 ''w'' view_w ''x'')"
proof -
  let ?S0 = "[([], []),
      ([''w'', ''x'', ''x''], [(''k'', ''2'')]),
      ([''w'', ''x''], [(''k'', ''1'')]),
      ([''w'', ''x'', ''x'', ''x''], [(''k'', ''3'')]),
      ([''w''], [])] :: string stores"
  have r: "stores_ref root0 = 0" "namespace root0 = []"
    "stores_ref view_w = 0" "namespace view_w = [''w'']"
    by (simp_all add: root0_def view_w_def)
  have h0: "cells heap3 0 = ?S0" "next_ref heap3 = 1"
    by (simp_all add: heap3_def)
  obtain h1 mw where a: "ns heap3 root0 (Str ''w'') = (h1, mw)"
    by (cases "ns heap3 root0 (Str ''w'')")
  then have ca: "copy_core heap3 root0 [''w''] = (h1, mw)"
    by (simp add: ns_def r)
  have va: "stores_ref root0 < next_ref heap3" by (simp add: r h0)
  note pa = copy_core_props[OF va ca] copy_core_cells[OF va ca]
  have mw: "stores_ref mw = 0" "namespace mw = [''w'']" and n1: "next_ref h1 = 2"
    using pa(1,2,3) by (simp_all add: r h0)
  have c1: "cells h1 0 = ?S0"
    using pa(5) by (simp add: r h0 stores_getitem_def)
  obtain h2 ox where b: "ns h1 view_w (Str ''x'') = (h2, ox)"
    by (cases "ns h1 view_w (Str ''x'')")
  then have cb: "copy_core h1 view_w [''w'', ''x''] = (h2, ox)"
    by (simp add: ns_def r)
  have vb: "stores_ref view_w < next_ref h1" by (simp add: r n1)
  note pb = copy_core_props[OF vb cb] copy_core_cells[OF vb cb]
  have ox: "stores_ref ox = 0" "namespace ox = [''w'', ''x'']" and n2: "next_ref h2 = 3"
    using pb(1,2,3) by (simp_all add: r n1)
  have c2: "cells h2 0 = ?S0"
    using pb(5) by (simp add: r c1 stores_getitem_def)
  have sub: "subnamespaces h2 ox = [[''x''], [], [''x'', ''x'']]"
    by (simp add: subnamespaces_def ox c2 startswith_def)
  let ?ha = "attach_step mw ox [''x''] h2"
  let ?hb = "attach_step mw ox [] ?ha"
  let ?hc = "attach_step mw ox [''x'', ''x''] ?hb"
  have res: "ns_attach_ns heap3 root0 ''w'' view_w ''x'' = ?hc"
    by (simp add: ns_attach_ns_def a b attach_def sub)
  have same: "stores_ref ox = stores_ref mw" by (simp add: ox mw)
  have v2: "stores_ref mw < next_ref h2" by (simp add: mw n2)
  have sa: "cells ?ha 0 = [([], []),
      ([''w'', ''x'', ''x''], [(''k'', ''2'')]),
      ([''w'', ''x''], [(''k'', ''2'')]),
      ([''w'', ''x'', ''x'', ''x''], [(''k'', ''3'')]),
      ([''w''], [])]"
    using attach_step_cells_same[OF v2 same, of "[''x'']"]
    by (simp add: mw ox c2 stores_getitem_def the_store_def dict_update_mapping_def)
  have va': "stores_ref mw < next_ref ?ha" by (simp add: mw attach_step_next_ref n2)
  have sb: "cells ?hb 0 = [([], []),
      ([''w'', ''x'', ''x''], [(''k'', ''2'')]),
      ([''w'', ''x''], [(''k'', ''2'')]),
      ([''w'', ''x'', ''x'', ''x''], [(''k'', ''3'')]),
      ([''w''], [(''k'', ''2'')])]"
    using attach_step_cells_same[OF va' same, of "[]"]
    by (simp add: mw ox sa stores_getitem_def the_store_def dict_update_mapping_def)
  have vb': "stores_ref mw < next_ref ?hb" by (simp add: mw attach_step_next_ref n2)
  have sc: "cells ?hc 0 = [([], []),
      ([''w'', ''x'', ''x''], [(''k'', ''3'')]),
      ([''w'', ''x''], [(''k'', ''2'')]),
      ([''w'', ''x'', ''x'', ''x''], [(''k'', ''3'')]),
      ([''w''], [(''k'', ''2'')])]"
    using attach_step_cells_same[OF vb' same, of "[''x'', ''x'']"]
    by (simp add: mw ox sb stores_getitem_def the_store_def dict_update_mapping_def)
  have "0 < next_ref ?hc" by (simp add: attach_step_next_ref)
  with sc show ?thesis unfolding res by simp
qed

text \<open>
  C2 as stated fails when \<open>m\<close> and \<open>other\<close> are views of one backing store and the target
  namespaces overlap the source namespaces. With \<open>other = m.abs_ns('w')\<close> the loop of
  \<open>attach\<close> reads namespaces it has already overwritten: at \<open>w\<close> the key \<open>k\<close> ends as
  \<open>2\<close>, though \<open>other\<close> had \<open>1\<close> at \<open>x\<close> before the call, and at \<open>w:x\<close> it ends as \<open>2\<close>, though
  \<open>other\<close> has \<open>3\<close> at \<open>x:x\<close> after the call.
\<close>

theorem attach_aliased_counterexample:
  "stores_ref root0 < next_ref heap3 \<and> stores_ref view_w < next_ref heap3
   \<and> read_at heap3 view_w [''w'', ''x''] ''k'' = Inr ''1''
   \<and> read_at (ns_attach_ns heap3 root0 ''w'' view_w ''x'') root0 [''w''] ''k'' = Inr ''2''
   \<and> read_at (ns_attach_ns heap3 root0 ''w'' view_w ''x'') view_w [''w'', ''x'', ''x''] ''k''
        = Inr ''3''
   \<and> read_at (ns_attach_ns heap3 root0 ''w'' view_w ''x'') root0 [''w'', ''x''] ''k'' = Inr ''2''"
proof -
  have r: "stores_ref root0 = 0" "stores_ref view_w = 0"
    by (simp_all add: root0_def view_w_def)
  have v: "stores_ref root0 < next_ref heap3" "stores_ref view_w < next_ref heap3"
    by (simp_all add: r heap3_def)
  have v': "stores_ref root0 < next_ref (ns_attach_ns heap3 root0 ''w'' view_w ''x'')"
    "stores_ref view_w < next_ref (ns_attach_ns heap3 root0 ''w'' view_w ''x'')"
    using ns_attach_ns_heap3 by (simp_all add: r)
  have c0: "cells heap3 0 = [([], []),
      ([''w'', ''x'', ''x''], [(''k'', ''2'')]),
      ([''w'', ''x''], [(''k'', ''1'')]),
      ([''w'', ''x'', ''x'', ''x''], [(''k'', ''3'')]),
      ([''w''], [])]"
    by (simp add: heap3_def)
  note c = ns_attach_ns_heap3 [THEN conjunct1]
  have e0: "read_at heap3 view_w [''w'', ''x''] ''k'' = Inr ''1''"
    unfolding read_at_eq[OF v(2)] r c0 by (simp add: the_store_def)
  have e1: "read_at (ns_attach_ns heap3 root0 ''w'' view_w ''x'') root0 [''w''] ''k'' = Inr ''2''"
    unfolding read_at_eq[OF v'(1)] r c by (simp add: the_store_def)
  have e2: "read_at (ns_attach_ns heap3 root0 ''w'' view_w ''x'') view_w [''w'', ''x'', ''x''] ''k''
        = Inr ''3''"
    unfolding read_at_eq[OF v'(2)] r c by (simp add: the_store_def)
  have e3: "read_at (ns_attach_ns heap3 root0 ''w'' view_w ''x'') root0 [''w'', ''x''] ''k'' = Inr ''2''"
    unfolding read_at_eq[OF v'(1)] r c by (simp add: the_store_def)
  show ?thesis by (intro conjI v e0 e1 e2 e3)
qed


section \<open>Properties of Metadata.get\<close>







section \<open>Properties of StudyConfig.to_proto\<close>

text \<open>
  Claim C9: both branches of the dispatch test the converted proto against
  \<open>DecayCurveAutomatedStoppingSpec\<close>, so the branch that writes
  \<open>median_automated_stopping_spec\<close> is never taken. For every config that is not \<open>None\<close>: a
  decay curve proto is copied into \<open>decay_curve_stopping_spec\<close>; for a median proto nothing
  is written, and the oneof keeps what the copy of \<open>_study_config\<close> had; so
  \<open>median_automated_stopping_spec\<close> is set in the result only if it was set there, to the
  same message.
\<close>

theorem to_proto_never_assigns_median:
  "(\<forall>d. config_to_proto c = DecayCurveAutomatedStoppingSpec d \<longrightarrow>
      to_proto_automated_stopping config_to_proto study_config (Some c)
        = Inr (decay_curve_stopping_spec d))
   \<and> (\<forall>m. config_to_proto c = MedianAutomatedStoppingSpec m \<longrightarrow>
      to_proto_automated_stopping config_to_proto study_config (Some c) = Inr study_config)
   \<and> (\<forall>m. to_proto_automated_stopping config_to_proto study_config (Some c)
          = Inr (median_automated_stopping_spec m) \<longrightarrow>
      study_config = median_automated_stopping_spec m)"
proof (intro conjI allI impI)
  fix d
  assume "config_to_proto c = DecayCurveAutomatedStoppingSpec d"
  then show "to_proto_automated_stopping config_to_proto study_config (Some c)
        = Inr (decay_curve_stopping_spec d)"
    by (simp add: to_proto_automated_stopping_def)
next
  fix m
  assume "config_to_proto c = MedianAutomatedStoppingSpec m"
  then show "to_proto_automated_stopping config_to_proto study_config (Some c)
        = Inr study_config"
    by (simp add: to_proto_automated_stopping_def)
next
  fix m
  assume a: "to_proto_automated_stopping config_to_proto study_config (Some c)
          = Inr (median_automated_stopping_spec m)"
  show "study_config = median_automated_stopping_spec m"
  proof (cases "config_to_proto c")
    case (DecayCurveAutomatedStoppingSpec d)
    with a show ?thesis by (simp add: to_proto_automated_stopping_def)
  next
    case (MedianAutomatedStoppingSpec m')
    with a show ?thesis by (simp add: to_proto_automated_stopping_def)
  qed
qed

text \<open>
  A decay curve config over an unset oneof, and a median config over a \<open>_study_config\<close>
  whose oneof holds the median spec \<open>1\<close>: the result still holds \<open>1\<close>, not the spec \<open>2\<close> of
  the config.
\<close>

theorem to_proto_never_assigns_median_witness:
  "to_proto_automated_stopping (\<lambda>c. c) NotSet
       (Some (DecayCurveAutomatedStoppingSpec (7::nat) :: (nat, nat) auto_stop_proto))
     = Inr (decay_curve_stopping_spec 7)
   \<and> to_proto_automated_stopping (\<lambda>c. c) (median_automated_stopping_spec 1)
       (Some (MedianAutomatedStoppingSpec (2::nat) :: (nat, nat) auto_stop_proto))
     = Inr (median_automated_stopping_spec 1)
   \<and> (median_automated_stopping_spec 1 :: (nat, nat) automated_stopping_spec)
     = median_automated_stopping_spec 1"
proof -
  have a: "to_proto_automated_stopping (\<lambda>c. c) NotSet
       (Some (DecayCurveAutomatedStoppingSpec (7::nat) :: (nat, nat) auto_stop_proto))
     = Inr (decay_curve_stopping_spec 7)"
    using to_proto_never_assigns_median [where config_to_proto = "\<lambda>c. c"
        and c = "DecayCurveAutomatedStoppingSpec (7::nat) :: (nat, nat) auto_stop_proto"
        and study_config = NotSet, THEN conjunct1, rule_format, of 7]
    by simp
  have b: "to_proto_automated_stopping (\<lambda>c. c) (median_automated_stopping_spec 1)
       (Some (MedianAutomatedStoppingSpec (2::nat) :: (nat, nat) auto_stop_proto))
     = Inr (median_automated_stopping_spec 1)"
    using to_proto_never_assigns_median [where config_to_proto = "\<lambda>c. c"
        and c = "MedianAutomatedStoppingSpec (2::nat) :: (nat, nat) auto_stop_proto"
        and study_config = "median_automated_stopping_spec 1",
        THEN conjunct2, THEN conjunct1, rule_format, of 2]
    by simp
  have c: "(median_automated_stopping_spec 1 :: (nat, nat) automated_stopping_spec)
     = median_automated_stopping_spec 1"
    using to_proto_never_assigns_median [where config_to_proto = "\<lambda>c. c"
        and c = "MedianAutomatedStoppingSpec (2::nat) :: (nat, nat) auto_stop_proto"
        and study_config = "median_automated_stopping_spec 1",
        THEN conjunct2, THEN conjunct2, rule_format, of 1]
    by (simp add: to_proto_automated_stopping_def)
  show ?thesis by (intro conjI a b c)
qed


section \<open>Properties of the resolution of trial parameters\<close>

lemma entries_self: "(p, pc) \<in> set (entries p pc)"
  by (cases pc) simp

lemma entries_closed:
  "(p, pc) \<in> set (entries p0 pc0) \<Longrightarrow> child \<in> set (child_parameter_configs pc)
   \<Longrightarrow> (Some (name pc), child) \<in> set (entries p0 pc0)"
proof (induction p0 pc0 rule: entries.induct)
  case (1 parent n t m cs)
  note prems = "1.prems" and IH = "1.IH"
  from prems(1) consider (root) "(p, pc) = (parent, ParameterConfig n t m cs)"
    | (below) x where "x \<in> set cs" "(p, pc) \<in> set (entries (Some n) x)"
    by auto
  then show ?case
  proof cases
    case root
    with prems(2) have c: "child \<in> set cs" and n: "name pc = n" by simp_all
    have "(Some n, child) \<in> set (entries (Some n) child)" by (rule entries_self)
    with c n show ?thesis by auto
  next
    case below
    from IH [OF below(1) below(2) prems(2)] below(1) show ?thesis by auto
  qed
qed

lemma all_entries_closed:
  "(p, pc) \<in> set (all_entries ss) \<Longrightarrow> child \<in> set (child_parameter_configs pc)
   \<Longrightarrow> (Some (name pc), child) \<in> set (all_entries ss)"
  unfolding all_entries_def using entries_closed by fastforce

lemma roots_in_all_entries: "set (map (\<lambda>p. (None, p)) ss) \<subseteq> set (all_entries ss)"
  unfolding all_entries_def using entries_self by fastforce

lemma loop_body_inv:
  assumes inv: "resolve_inv ps E st" and e: "(parent, pc) \<in> E"
  shows "resolve_inv ps E (loop_body cast parent pc st)"
proof (cases "map_of (remaining_parameters st) (name pc)")
  case None
  then show ?thesis using inv by (simp add: loop_body_def)
next
  case (Some val)
  define st' where "st' =
    \<lparr>parameter_values = AList.update (name pc) val (parameter_values st),
     external_values = AList.update (name pc)
       (case external_type pc of None \<Rightarrow> val | Some t \<Rightarrow> cast val t) (external_values st),
     remaining_parameters = AList.delete (name pc) (remaining_parameters st)\<rparr>"
  from inv Some have ps: "map_of ps (name pc) = Some val"
    by (simp add: resolve_inv_def)
  then have "(name pc, val) \<in> set ps" by (rule map_of_SomeD)
  then have k: "name pc \<in> fst ` set ps" by force
  have new: "resolve_inv ps E st'" if pm: "parent_matches ps parent pc"
  proof -
    have 1: "distinct (map fst (external_values st'))"
      using inv by (simp add: st'_def resolve_inv_def distinct_update)
    have 2: "fst ` set (external_values st') \<subseteq> fst ` set ps"
      using inv k by (simp add: st'_def resolve_inv_def dom_update)
    have 3: "\<forall>n v. map_of (remaining_parameters st') n = Some v \<longrightarrow> map_of ps n = Some v"
      using inv by (simp add: st'_def resolve_inv_def delete_conv)
    have 4: "\<forall>n v. map_of (parameter_values st') n = Some v \<longrightarrow> map_of ps n = Some v"
      using inv ps by (simp add: st'_def resolve_inv_def update_conv')
    have 5: "\<forall>n \<in> fst ` set (external_values st').
           \<exists>e \<in> E. name (snd e) = n \<and> parent_matches ps (fst e) (snd e)"
    proof
      fix n assume "n \<in> fst ` set (external_values st')"
      then have "n = name pc \<or> n \<in> fst ` set (external_values st)"
        by (simp add: st'_def dom_update)
      then show "\<exists>e \<in> E. name (snd e) = n \<and> parent_matches ps (fst e) (snd e)"
      proof
        assume "n = name pc"
        with e pm show ?thesis by (intro bexI [of _ "(parent, pc)"]) simp_all
      next
        assume "n \<in> fst ` set (external_values st)"
        with inv show ?thesis unfolding resolve_inv_def by blast
      qed
    qed
    from 1 2 3 4 5 show ?thesis unfolding resolve_inv_def by blast
  qed
  show ?thesis
  proof (cases parent)
    case None
    then have "loop_body cast parent pc st = st'"
      by (simp add: loop_body_def Some st'_def)
    moreover have "parent_matches ps parent pc" using None by (simp add: parent_matches_def)
    ultimately show ?thesis using new by simp
  next
    case (Some p)
    note par = this
    show ?thesis
    proof (cases "map_of (parameter_values st) p")
      case None
      then have "loop_body cast parent pc st = st"
        by (simp add: loop_body_def \<open>map_of (remaining_parameters st) (name pc) = Some val\<close> par)
      then show ?thesis using inv by simp
    next
      case (Some pval)
      show ?thesis
      proof (cases "pval \<in> set (matching_parent_values pc)")
        case True
        have "loop_body cast parent pc st = st'"
          by (simp add: loop_body_def \<open>map_of (remaining_parameters st) (name pc) = Some val\<close>
              par Some True st'_def)
        moreover have "map_of ps p = Some pval" using inv Some by (simp add: resolve_inv_def)
        then have "parent_matches ps parent pc"
          using True par by (simp add: parent_matches_def)
        ultimately show ?thesis using new by simp
      next
        case False
        have "loop_body cast parent pc st = st"
          by (simp add: loop_body_def \<open>map_of (remaining_parameters st) (name pc) = Some val\<close>
              par Some False)
        then show ?thesis using inv by simp
      qed
    qed
  qed
qed

lemma loop_inv:
  assumes closed: "\<And>p pc child. (p, pc) \<in> E \<Longrightarrow> child \<in> set (child_parameter_configs pc)
      \<Longrightarrow> (Some (name pc), child) \<in> E"
  shows "resolve_inv ps E st \<Longrightarrow> set q \<subseteq> E
    \<Longrightarrow> \<exists>st'. resolve_inv ps E st' \<and> external_values st' = trial_to_external_values_loop cast st q"
proof (induction cast st q rule: trial_to_external_values_loop.induct)
  case (1 cast st)
  then show ?case by auto
next
  case (2 cast st parent_name pc parameter_configs)
  show ?case
  proof (cases "remaining_parameters st = []")
    case True
    with "2.prems"(1) show ?thesis by auto
  next
    case False
    from "2.prems"(2) have e: "(parent_name, pc) \<in> E" by simp
    have i: "resolve_inv ps E (loop_body cast parent_name pc st)"
      using "2.prems"(1) e by (rule loop_body_inv)
    have s: "set (parameter_configs
        @ map (\<lambda>child. (Some (name pc), child)) (child_parameter_configs pc)) \<subseteq> E"
      using "2.prems"(2) closed [OF e] by auto
    from "2.IH" [OF False i s] False show ?thesis by simp
  qed
qed

lemma external_values_props:
  fixes pytrial :: "'v Trial" and ss :: "('v, 't) ParameterConfig list"
    and cast :: "'v \<Rightarrow> 't \<Rightarrow> 'v"
  defines "ev \<equiv> trial_to_external_values cast ss pytrial"
  shows "distinct (map fst ev)"
    and "fst ` set ev \<subseteq> fst ` set (parameters pytrial)"
    and "\<forall>n \<in> fst ` set ev. \<exists>e \<in> set (all_entries ss).
           name (snd e) = n \<and> parent_matches (parameters pytrial) (fst e) (snd e)"
proof -
  let ?st = "\<lparr>parameter_values = [], external_values = [],
      remaining_parameters = parameters pytrial\<rparr>"
  have i: "resolve_inv (parameters pytrial) (set (all_entries ss)) ?st"
    by (simp add: resolve_inv_def)
  have "\<exists>st'. resolve_inv (parameters pytrial) (set (all_entries ss)) st'
      \<and> external_values st' = trial_to_external_values_loop cast ?st (map (\<lambda>p. (None, p)) ss)"
  proof (rule loop_inv [OF _ i roots_in_all_entries])
    fix p pc child
    assume "(p, pc) \<in> set (all_entries ss)" "child \<in> set (child_parameter_configs pc)"
    then show "(Some (name pc), child) \<in> set (all_entries ss)" by (rule all_entries_closed)
  qed
  then obtain st' where st': "resolve_inv (parameters pytrial) (set (all_entries ss)) st'"
      "external_values st' = ev"
    unfolding ev_def trial_to_external_values_def by blast
  from st' show "distinct (map fst ev)" by (simp add: resolve_inv_def)
  from st' show "fst ` set ev \<subseteq> fst ` set (parameters pytrial)" by (simp add: resolve_inv_def)
  from st' show "\<forall>n \<in> fst ` set ev. \<exists>e \<in> set (all_entries ss).
           name (snd e) = n \<and> parent_matches (parameters pytrial) (fst e) (snd e)"
    by (simp add: resolve_inv_def)
qed

lemma keys_eq_of_length_eq:
  assumes "distinct (map fst ev)" "fst ` set ev \<subseteq> fst ` set ps" "length ev = length ps"
  shows "fst ` set ev = fst ` set ps"
proof -
  have "card (fst ` set ev) = length ev"
    using assms(1) distinct_card [of "map fst ev"] by simp
  moreover have "card (fst ` set ps) \<le> length ps"
    using card_length [of "map fst ps"] by simp
  moreover have "card (fst ` set ev) \<le> card (fst ` set ps)"
    using assms(2) by (simp add: card_mono)
  ultimately have "card (fst ` set ev) = card (fst ` set ps)" using assms(3) by simp
  with assms(2) show ?thesis by (simp add: card_subset_eq)
qed

lemma map_of_snoc_distinct:
  assumes "k \<notin> fst ` set xs"
  shows "map_of (xs @ [(k, v)]) n = (if n = k then Some v else map_of xs n)"
proof -
  have e: "map_of xs k = None" using assms by (simp add: map_of_eq_None_iff)
  show ?thesis
    by (auto simp add: map_add_def e simp del: map_of_eq_None_iff split: option.splits)
qed

lemma of_base_snoc:
  "of_base parse_name b (xs @ [(n, v)]) =
     of_base parse_name b xs
     @ (case parse_name n of None \<Rightarrow> [] | Some (b', i) \<Rightarrow> if b' = b then [(i, v)] else [])"
  by (auto simp: of_base_def split: option.splits)

lemma fold_group_step:
  "distinct (map fst ext) \<Longrightarrow>
   (case fold (group_step parse_name) ext ([], []) of (T, M) \<Rightarrow>
      (\<forall>n. map_of T n = (if parse_name n = None then map_option Scalar (map_of ext n) else None))
      \<and> (\<forall>b. map_of M b = (if of_base parse_name b ext = [] then None
                            else Some (of_base parse_name b ext)))
      \<and> distinct (map fst M))"
proof (induction ext rule: rev_induct)
  case Nil
  show ?case by (simp add: of_base_def)
next
  case (snoc x xs)
  obtain n v where x: "x = (n, v)" by (cases x)
  from snoc.prems have d: "distinct (map fst xs)" and nk: "n \<notin> fst ` set xs"
    by (simp_all add: x)
  obtain T M where f: "fold (group_step parse_name) xs ([], []) = (T, M)"
    by (cases "fold (group_step parse_name) xs ([], [])")
  from snoc.IH [OF d] f
  have T: "\<And>k. map_of T k = (if parse_name k = None then map_option Scalar (map_of xs k) else None)"
    and M: "\<And>b. map_of M b = (if of_base parse_name b xs = [] then None
                            else Some (of_base parse_name b xs))"
    and dM: "distinct (map fst M)"
    by simp_all
  show ?case
  proof (cases "parse_name n")
    case None
    have g: "fold (group_step parse_name) (xs @ [(n, v)]) ([], []) =
        (AList.update n (Scalar v) T, M)"
      by (simp add: f group_step_def None)
    show ?thesis
      unfolding x g
      by (simp add: update_conv' T M dM of_base_snoc None map_of_snoc_distinct [OF nk]
          del: map_of_append)
  next
    case (Some bi)
    obtain b0 i where bi: "bi = (b0, i)" by (cases bi)
    have g: "fold (group_step parse_name) (xs @ [(n, v)]) ([], []) =
        (T, AList.update b0 (of_base parse_name b0 xs @ [(i, v)]) M)"
      by (simp add: f group_step_def Some bi M)
    show ?thesis
      unfolding x g
      using Some
      by (auto simp add: update_conv' T M dM distinct_update of_base_snoc bi
          map_of_snoc_distinct [OF nk] simp del: map_of_append)
  qed
qed

lemma fold_update_seq:
  "distinct (map fst M) \<Longrightarrow>
   map_of (fold (\<lambda>(k, l). AList.update k (g l)) M T) n =
     (case map_of M n of None \<Rightarrow> map_of T n | Some l \<Rightarrow> Some (g l))"
proof (induction M arbitrary: T)
  case Nil
  show ?case by simp
next
  case (Cons x M)
  obtain k l where x: "x = (k, l)" by (cases x)
  from Cons.prems have d: "distinct (map fst M)" and nk: "map_of M k = None"
    by (simp_all add: x map_of_eq_None_iff)
  show ?case
    using Cons.IH [OF d, of "AList.update k (g l) T"] nk
    by (simp add: x update_conv' split: option.splits)
qed

lemma map_of_combine:
  assumes "distinct (map fst ext)"
  shows "map_of (combine parse_name ext) n =
     (if of_base parse_name n ext \<noteq> []
      then Some (Sequence (map snd (sort_key fst (of_base parse_name n ext))))
      else if parse_name n = None then map_option Scalar (map_of ext n) else None)"
proof -
  obtain T M where f: "fold (group_step parse_name) ext ([], []) = (T, M)"
    by (cases "fold (group_step parse_name) ext ([], [])")
  from fold_group_step [OF assms, of parse_name] f
  have T: "\<And>k. map_of T k = (if parse_name k = None then map_option Scalar (map_of ext k) else None)"
    and M: "\<And>b. map_of M b = (if of_base parse_name b ext = [] then None
                            else Some (of_base parse_name b ext))"
    and dM: "distinct (map fst M)"
    by simp_all
  show ?thesis
    by (simp add: combine_def f fold_update_seq [OF dM] T M)
qed

lemma of_base_Nil_iff:
  "of_base parse_name b ext = [] \<longleftrightarrow> (\<forall>n \<in> fst ` set ext. \<forall>i. parse_name n \<noteq> Some (b, i))"
  by (force simp: of_base_def filter_empty_conv split: option.splits)


lemma unresolved_name_fails:
  assumes "n \<in> fst ` set (parameters pytrial)"
    and "n \<notin> fst ` set (trial_to_external_values cast ss pytrial)"
  shows "pytrial_parameters cast parse_name ss pytrial = Inl (Invalid_trial pytrial)"
proof -
  have "length (trial_to_external_values cast ss pytrial) \<noteq> length (parameters pytrial)"
    using keys_eq_of_length_eq [OF external_values_props(1,2), of cast ss pytrial] assms
    by blast
  then show ?thesis by (simp add: pytrial_parameters_def Let_def)
qed



lemma parse_plain [simp]:
  "parse_multi_dimensional_parameter_name ''a'' = None"
  "parse_multi_dimensional_parameter_name ''b'' = None"
  "parse_multi_dimensional_parameter_name ''c'' = None"
  "parse_multi_dimensional_parameter_name ''x'' = None"
  "parse_multi_dimensional_parameter_name ''y'' = None"
  by (simp_all add: parse_multi_dimensional_parameter_name_def)

lemma parse_indexed [simp]:
  "parse_multi_dimensional_parameter_name ''x[0]'' = Some (''x'', 0)"
  "parse_multi_dimensional_parameter_name ''x[1]'' = Some (''x'', 1)"
  "parse_multi_dimensional_parameter_name ''x[2]'' = Some (''x'', 2)"
  by (simp_all add: parse_multi_dimensional_parameter_name_def is_digit_def digits_value_def)



lemma space_duplicate_values:
  "trial_to_external_values (\<lambda>v t. v) space_duplicate
     \<lparr>parameters = [(''a'', ''high''), (''c'', ''1'')]\<rparr> = [(''a'', ''high''), (''c'', ''1'')]"
  by (simp add: trial_to_external_values_def space_duplicate_def leaf_def loop_body_def)

text \<open>
  Claim C5, with unique names. A config with a parent is recorded exactly when its name
  is among the remaining parameters of the trial, the name of its parent has a recorded
  value, and that value is one of its matching parent values; otherwise the state is left
  as it is. If the names of the configs of the search space are distinct, a child config
  whose name is in the trial, while the trial gives its parent a value that is none of
  its matching parent values, gets no external value, and the resolution raises.
\<close>

theorem child_needs_matching_parent:
  "(\<forall>value pv. map_of (remaining_parameters st) (name pc) = Some value
        \<and> map_of (parameter_values st) parent = Some pv
        \<and> pv \<in> set (matching_parent_values pc) \<longrightarrow>
      loop_body cast (Some parent) pc st =
        \<lparr>parameter_values = AList.update (name pc) value (parameter_values st),
         external_values = AList.update (name pc)
           (case external_type pc of None \<Rightarrow> value | Some t \<Rightarrow> cast value t)
           (external_values st),
         remaining_parameters = AList.delete (name pc) (remaining_parameters st)\<rparr>)
   \<and> (map_of (remaining_parameters st) (name pc) = None
        \<or> map_of (parameter_values st) parent = None
        \<or> (\<exists>pv. map_of (parameter_values st) parent = Some pv
              \<and> pv \<notin> set (matching_parent_values pc)) \<longrightarrow>
      loop_body cast (Some parent) pc st = st)
   \<and> (distinct (all_names ss) \<and> (Some a, child) \<in> set (all_entries ss)
        \<and> name child \<in> fst ` set (parameters pytrial)
        \<and> map_of (parameters pytrial) a = Some v
        \<and> v \<notin> set (matching_parent_values child) \<longrightarrow>
      name child \<notin> fst ` set (trial_to_external_values cast ss pytrial)
      \<and> pytrial_parameters cast parse_name ss pytrial = Inl (Invalid_trial pytrial))"
proof (intro conjI allI impI)
  fix val pv
  assume "map_of (remaining_parameters st) (name pc) = Some val
        \<and> map_of (parameter_values st) parent = Some pv
        \<and> pv \<in> set (matching_parent_values pc)"
  then show "loop_body cast (Some parent) pc st =
        \<lparr>parameter_values = AList.update (name pc) val (parameter_values st),
         external_values = AList.update (name pc)
           (case external_type pc of None \<Rightarrow> val | Some t \<Rightarrow> cast val t)
           (external_values st),
         remaining_parameters = AList.delete (name pc) (remaining_parameters st)\<rparr>"
    by (simp add: loop_body_def)
next
  assume "map_of (remaining_parameters st) (name pc) = None
        \<or> map_of (parameter_values st) parent = None
        \<or> (\<exists>pv. map_of (parameter_values st) parent = Some pv
              \<and> pv \<notin> set (matching_parent_values pc))"
  then show "loop_body cast (Some parent) pc st = st"
    by (auto simp add: loop_body_def simp del: map_of_eq_None_iff split: option.splits)
next
  assume h: "distinct (all_names ss) \<and> (Some a, child) \<in> set (all_entries ss)
        \<and> name child \<in> fst ` set (parameters pytrial)
        \<and> map_of (parameters pytrial) a = Some v
        \<and> v \<notin> set (matching_parent_values child)"
  show n: "name child \<notin> fst ` set (trial_to_external_values cast ss pytrial)"
  proof
    assume "name child \<in> fst ` set (trial_to_external_values cast ss pytrial)"
    with external_values_props(3) [of cast ss pytrial]
    obtain e where e: "e \<in> set (all_entries ss)" "name (snd e) = name child"
      "parent_matches (parameters pytrial) (fst e) (snd e)"
      by blast
    from h have "inj_on (\<lambda>(parent, pc). name pc) (set (all_entries ss))"
      by (simp add: all_names_def distinct_map)
    moreover have "(\<lambda>(parent, pc). name pc) e = (\<lambda>(parent, pc). name pc) (Some a, child)"
      using e(2) by (simp add: case_prod_beta)
    ultimately have "e = (Some a, child)" using e(1) h by (meson inj_onD)
    with e(3) h show False by (simp add: parent_matches_def)
  qed
  from h n show "pytrial_parameters cast parse_name ss pytrial = Inl (Invalid_trial pytrial)"
    by (intro unresolved_name_fails [of "name child"]) simp_all
qed

text \<open>
  The two cases of the step for the child \<open>c\<close> of \<open>a\<close>, with \<open>a\<close> recorded as \<open>'low'\<close> and as
  \<open>'high'\<close>; and the trial \<open>{a: 'high', c: '1'}\<close> in the search space where \<open>c\<close> is active for
  \<open>a = 'low'\<close>, which raises.
\<close>

theorem child_needs_matching_parent_witness:
  "loop_body (\<lambda>v t. v) (Some ''a'') (ParameterConfig ''c'' (None :: unit option) [''low''] [])
       \<lparr>parameter_values = [(''a'', ''low'')], external_values = [(''a'', ''low'')],
        remaining_parameters = [(''c'', ''1'')]\<rparr>
     = \<lparr>parameter_values = [(''a'', ''low''), (''c'', ''1'')],
        external_values = [(''a'', ''low''), (''c'', ''1'')], remaining_parameters = []\<rparr>
   \<and> loop_body (\<lambda>v t. v) (Some ''a'') (ParameterConfig ''c'' (None :: unit option) [''low''] [])
       \<lparr>parameter_values = [(''a'', ''high'')], external_values = [(''a'', ''high'')],
        remaining_parameters = [(''c'', ''1'')]\<rparr>
     = \<lparr>parameter_values = [(''a'', ''high'')], external_values = [(''a'', ''high'')],
        remaining_parameters = [(''c'', ''1'')]\<rparr>
   \<and> ''c'' \<notin> fst ` set (trial_to_external_values (\<lambda>v t. v) space_conditional
        \<lparr>parameters = [(''a'', ''high''), (''c'', ''1'')]\<rparr>)
   \<and> pytrial_parameters (\<lambda>v t. v) parse_multi_dimensional_parameter_name space_conditional
       \<lparr>parameters = [(''a'', ''high''), (''c'', ''1'')]\<rparr>
     = Inl (Invalid_trial \<lparr>parameters = [(''a'', ''high''), (''c'', ''1'')]\<rparr>)"
proof -
  have a: "loop_body (\<lambda>v t. v) (Some ''a'')
       (ParameterConfig ''c'' (None :: unit option) [''low''] [])
       \<lparr>parameter_values = [(''a'', ''low'')], external_values = [(''a'', ''low'')],
        remaining_parameters = [(''c'', ''1'')]\<rparr>
     = \<lparr>parameter_values = [(''a'', ''low''), (''c'', ''1'')],
        external_values = [(''a'', ''low''), (''c'', ''1'')], remaining_parameters = []\<rparr>"
    using child_needs_matching_parent [where cast = "\<lambda>v t. v" and parent = "''a''"
        and pc = "ParameterConfig ''c'' (None :: unit option) [''low''] []"
        and st = "\<lparr>parameter_values = [(''a'', ''low'')], external_values = [(''a'', ''low'')],
          remaining_parameters = [(''c'', ''1'')]\<rparr>",
        THEN conjunct1, rule_format, of "''1''" "''low''"]
    by simp
  have b: "loop_body (\<lambda>v t. v) (Some ''a'')
       (ParameterConfig ''c'' (None :: unit option) [''low''] [])
       \<lparr>parameter_values = [(''a'', ''high'')], external_values = [(''a'', ''high'')],
        remaining_parameters = [(''c'', ''1'')]\<rparr>
     = \<lparr>parameter_values = [(''a'', ''high'')], external_values = [(''a'', ''high'')],
        remaining_parameters = [(''c'', ''1'')]\<rparr>"
    using child_needs_matching_parent [where cast = "\<lambda>v t. v" and parent = "''a''"
        and pc = "ParameterConfig ''c'' (None :: unit option) [''low''] []"
        and st = "\<lparr>parameter_values = [(''a'', ''high'')], external_values = [(''a'', ''high'')],
          remaining_parameters = [(''c'', ''1'')]\<rparr>",
        THEN conjunct2, THEN conjunct1]
    by simp
  have c: "''c'' \<notin> fst ` set (trial_to_external_values (\<lambda>v t. v) space_conditional
        \<lparr>parameters = [(''a'', ''high''), (''c'', ''1'')]\<rparr>)
    \<and> pytrial_parameters (\<lambda>v t. v) parse_multi_dimensional_parameter_name space_conditional
       \<lparr>parameters = [(''a'', ''high''), (''c'', ''1'')]\<rparr>
     = Inl (Invalid_trial \<lparr>parameters = [(''a'', ''high''), (''c'', ''1'')]\<rparr>)"
    using child_needs_matching_parent [where cast = "\<lambda>v t. v"
        and parse_name = parse_multi_dimensional_parameter_name
        and ss = space_conditional and a = "''a''"
        and child = "ParameterConfig ''c'' (None :: unit option) [''low''] []"
        and pytrial = "\<lparr>parameters = [(''a'', ''high''), (''c'', ''1'')]\<rparr>"
        and v = "''high''",
        THEN conjunct2, THEN conjunct2]
    by (simp add: all_names_def all_entries_def space_conditional_def)
  from a b c show ?thesis by (intro conjI) simp_all
qed

text \<open>
  Claim C5 fails when a second config has the name of the child: in the search space with
  the child \<open>c\<close> of \<open>a\<close>, active for \<open>a = 'low'\<close>, and another config \<open>c\<close> at the root, the
  trial \<open>{a: 'high', c: '1'}\<close> has the child in it and a parent value that does not match,
  and it is resolved, by the config at the root.
\<close>

theorem duplicate_name_resolves_child:
  "(Some ''a'', ParameterConfig ''c'' None [''low''] []) \<in> set (all_entries space_duplicate)
   \<and> map_of [(''a'', ''high''), (''c'', ''1'')] ''a'' = Some ''high''
   \<and> ''high'' \<notin> set (matching_parent_values (ParameterConfig ''c'' (None :: unit option)
        [''low''] []))
   \<and> map_of [(''a'', ''high''), (''c'', ''1'')] ''c'' = Some ''1''
   \<and> pytrial_parameters (\<lambda>v t. v) parse_multi_dimensional_parameter_name space_duplicate
       \<lparr>parameters = [(''a'', ''high''), (''c'', ''1'')]\<rparr>
     = Inr [(''a'', Scalar ''high''), (''c'', Scalar ''1'')]"
  by (simp add: all_entries_def space_duplicate_def leaf_def pytrial_parameters_def Let_def
      space_duplicate_values [unfolded space_duplicate_def leaf_def] combine_def group_step_def)

lemma distinct_of_base:
  assumes d: "distinct (map fst xs)"
    and idx: "\<forall>n \<in> fst ` set xs. \<forall>n' \<in> fst ` set xs. \<forall>b i.
        parse_name n = Some (b, i) \<and> parse_name n' = Some (b, i) \<longrightarrow> n = n'"
  shows "distinct (map fst (of_base parse_name b xs))"
proof -
  let ?P = "\<lambda>(n, v). case parse_name n of None \<Rightarrow> False | Some (b', i) \<Rightarrow> b' = b"
  let ?g = "\<lambda>x. snd (the (parse_name (fst x)))"
  have m: "map fst (of_base parse_name b xs) = map ?g (filter ?P xs)"
    by (simp add: of_base_def case_prod_beta comp_def)
  have "inj_on ?g (set (filter ?P xs))"
  proof (rule inj_onI)
    fix x y
    assume x: "x \<in> set (filter ?P xs)" and y: "y \<in> set (filter ?P xs)" and e: "?g x = ?g y"
    obtain n v where xe: "x = (n, v)" by (cases x)
    obtain n' v' where ye: "y = (n', v')" by (cases y)
    from x xe obtain i where i: "(n, v) \<in> set xs" "parse_name n = Some (b, i)"
      by (auto split: option.splits)
    from y ye obtain i' where i': "(n', v') \<in> set xs" "parse_name n' = Some (b, i')"
      by (auto split: option.splits)
    from e xe ye i(2) i'(2) have "i = i'" by simp
    moreover from i(1) have "n \<in> fst ` set xs" by force
    moreover from i'(1) have "n' \<in> fst ` set xs" by force
    ultimately have "n = n'" using idx i(2) i'(2) by blast
    with d i(1) i'(1) have "v = v'" by (metis eq_key_imp_eq_value)
    with \<open>n = n'\<close> xe ye show "x = y" by simp
  qed
  moreover from d have "distinct (filter ?P xs)" by (simp add: distinct_map)
  ultimately show ?thesis unfolding m by (simp add: distinct_map)
qed

lemma pairs_from_keys:
  "distinct (map fst s) \<Longrightarrow> map (\<lambda>k. (k, the (map_of s k))) (map fst s) = s"
proof (induction s)
  case Nil
  show ?case by simp
next
  case (Cons x s)
  obtain k v where x: "x = (k, v)" by (cases x)
  from Cons.prems have d: "distinct (map fst s)" and nk: "k \<notin> fst ` set s"
    by (simp_all add: x)
  have "map (\<lambda>k'. (k', the (map_of ((k, v) # s) k'))) (map fst s)
      = map (\<lambda>k'. (k', the (map_of s k'))) (map fst s)"
    using nk by (intro map_cong refl) auto
  with Cons.IH [OF d] show ?case by (simp add: x)
qed

lemma sorted_pairs_unique:
  fixes l1 l2 :: "(int \<times> 'v) list"
  assumes d1: "distinct (map fst l1)" and d2: "distinct (map fst l2)" and s: "set l1 = set l2"
  shows "sort_key fst l1 = sort_key fst l2"
proof -
  have e1: "distinct (map fst (sort_key fst l1))"
    using d1 by (simp add: distinct_map)
  have e2: "distinct (map fst (sort_key fst l2))"
    using d2 by (simp add: distinct_map)
  have k: "map fst (sort_key fst l1) = map fst (sort_key fst l2)"
    by (rule sorted_distinct_set_unique) (simp_all add: e1 e2 s)
  have m: "map_of (sort_key fst l1) = map_of (sort_key fst l2)"
    using e1 e2 s by (simp add: map_of_inject_set)
  have "sort_key fst l1
      = map (\<lambda>k. (k, the (map_of (sort_key fst l1) k))) (map fst (sort_key fst l1))"
    by (simp only: pairs_from_keys [OF e1])
  also have "\<dots> = map (\<lambda>k. (k, the (map_of (sort_key fst l2) k))) (map fst (sort_key fst l2))"
    by (simp only: k m)
  also have "\<dots> = sort_key fst l2" by (rule pairs_from_keys [OF e2])
  finally show ?thesis .
qed

lemma combine_iteration_order:
  assumes d: "distinct (map fst xs)" and d': "distinct (map fst ys)" and s: "set ys = set xs"
    and idx: "\<forall>n \<in> fst ` set xs. \<forall>n' \<in> fst ` set xs. \<forall>b i.
        parse_name n = Some (b, i) \<and> parse_name n' = Some (b, i) \<longrightarrow> n = n'"
  shows "map_of (combine parse_name ys) = map_of (combine parse_name xs)"
proof
  fix n
  from idx s have idx': "\<forall>n \<in> fst ` set ys. \<forall>n' \<in> fst ` set ys. \<forall>b i.
        parse_name n = Some (b, i) \<and> parse_name n' = Some (b, i) \<longrightarrow> n = n'"
    by simp
  have o: "set (of_base parse_name n ys) = set (of_base parse_name n xs)"
    by (simp add: of_base_def s)
  have so: "sort_key fst (of_base parse_name n ys) = sort_key fst (of_base parse_name n xs)"
    using distinct_of_base [OF d' idx'] distinct_of_base [OF d idx] o
    by (rule sorted_pairs_unique)
  from o have e: "of_base parse_name n ys = [] \<longleftrightarrow> of_base parse_name n xs = []"
    by (metis set_empty)
  have m: "map_of ys = map_of xs" using d d' s by (simp add: map_of_inject_set)
  show "map_of (combine parse_name ys) n = map_of (combine parse_name xs) n"
    by (simp add: map_of_combine [OF d] map_of_combine [OF d'] e m so)
qed

lemma space_multi_values:
  "trial_to_external_values (\<lambda>v t. v) space_multi
     \<lparr>parameters = [(''x[2]'', 3), (''x[0]'', 1), (''x[1]'', 2), (''y'', 7)]\<rparr>
   = [(''x[2]'', 3), (''x[0]'', 1), (''x[1]'', 2), (''y'', 7)]"
  by (simp add: trial_to_external_values_def space_multi_def leaf_def loop_body_def)

lemma space_multi_result:
  "pytrial_parameters (\<lambda>v t. v) parse_multi_dimensional_parameter_name space_multi
     \<lparr>parameters = [(''x[2]'', 3), (''x[0]'', 1), (''x[1]'', 2), (''y'', 7)]\<rparr>
   = Inr [(''y'', Scalar 7), (''x'', Sequence [1, 2, 3])]"
  by (simp add: pytrial_parameters_def Let_def space_multi_values combine_def group_step_def
      sort_key_def)

lemma space_clash_values:
  "trial_to_external_values (\<lambda>v t. v) space_clash \<lparr>parameters = [(''x'', 5), (''x[0]'', 1)]\<rparr>
   = [(''x'', 5), (''x[0]'', 1)]"
  by (simp add: trial_to_external_values_def space_clash_def leaf_def loop_body_def)

text \<open>
  Claim C4, for a trial in which no name without an index is the base name of a name with
  an index. When the resolution returns the mapping \<open>final\<close>: a name without an index has
  its external value in \<open>final\<close>; the base name of a name with an index has the values of
  the names with that base name, sorted by index, as many as there are such names; \<open>final\<close>
  has no other key; and recombining the same external values in another iteration order
  gives the same mapping, if no two names encode the same base name and index.
\<close>

theorem multi_dimensional_recombination:
  assumes ok: "pytrial_parameters cast parse_name ss pytrial = Inr final"
    and clash: "\<forall>n \<in> fst ` set (parameters pytrial). parse_name n = None \<longrightarrow>
        (\<forall>n' \<in> fst ` set (parameters pytrial). \<forall>i. parse_name n' \<noteq> Some (n, i))"
  shows "(\<forall>n v. (n, v) \<in> set (trial_to_external_values cast ss pytrial) \<and> parse_name n = None
            \<longrightarrow> map_of final n = Some (Scalar v))
    \<and> (\<forall>n v b i. (n, v) \<in> set (trial_to_external_values cast ss pytrial)
            \<and> parse_name n = Some (b, i) \<longrightarrow>
          (\<exists>l. map_of final b = Some (Sequence (map snd l))
             \<and> l = sort_key fst (of_base parse_name b (trial_to_external_values cast ss pytrial))
             \<and> sorted (map fst l)
             \<and> set l = set (of_base parse_name b (trial_to_external_values cast ss pytrial))
             \<and> length l
                 = length (of_base parse_name b (trial_to_external_values cast ss pytrial))))
    \<and> (\<forall>k. map_of final k \<noteq> None \<longrightarrow>
          (k \<in> fst ` set (parameters pytrial) \<and> parse_name k = None)
          \<or> (\<exists>n \<in> fst ` set (parameters pytrial). \<exists>i. parse_name n = Some (k, i)))
    \<and> (\<forall>ys. distinct (map fst ys) \<and> set ys = set (trial_to_external_values cast ss pytrial)
            \<and> (\<forall>n \<in> fst ` set (parameters pytrial). \<forall>n' \<in> fst ` set (parameters pytrial).
                 \<forall>b i. parse_name n = Some (b, i) \<and> parse_name n' = Some (b, i) \<longrightarrow> n = n')
            \<longrightarrow> map_of (combine parse_name ys) = map_of final)"
proof -
  let ?tev = "trial_to_external_values cast ss pytrial"
  from ok have len: "length ?tev = length (parameters pytrial)"
    and final: "final = combine parse_name ?tev"
    by (auto simp add: pytrial_parameters_def Let_def split: if_splits)
  have d: "distinct (map fst ?tev)" by (rule external_values_props(1))
  have k: "fst ` set ?tev = fst ` set (parameters pytrial)"
    using external_values_props(1,2) len by (rule keys_eq_of_length_eq)
  have 1: "\<forall>n v. (n, v) \<in> set ?tev \<and> parse_name n = None \<longrightarrow> map_of final n = Some (Scalar v)"
  proof (intro allI impI)
    fix n v assume a: "(n, v) \<in> set ?tev \<and> parse_name n = None"
    then have "n \<in> fst ` set (parameters pytrial)" unfolding k [symmetric] by force
    with clash a have "\<forall>n' \<in> fst ` set ?tev. \<forall>i. parse_name n' \<noteq> Some (n, i)"
      unfolding k by blast
    then have "of_base parse_name n ?tev = []" by (simp only: of_base_Nil_iff)
    moreover from a d have "map_of ?tev n = Some v" by simp
    ultimately show "map_of final n = Some (Scalar v)"
      using a by (simp add: final map_of_combine [OF d])
  qed
  have 2: "\<forall>n v b i. (n, v) \<in> set ?tev \<and> parse_name n = Some (b, i) \<longrightarrow>
          (\<exists>l. map_of final b = Some (Sequence (map snd l))
             \<and> l = sort_key fst (of_base parse_name b ?tev)
             \<and> sorted (map fst l)
             \<and> set l = set (of_base parse_name b ?tev)
             \<and> length l = length (of_base parse_name b ?tev))"
  proof (intro allI impI)
    fix n v b i assume a: "(n, v) \<in> set ?tev \<and> parse_name n = Some (b, i)"
    then have "n \<in> fst ` set ?tev" by force
    with a have "of_base parse_name b ?tev \<noteq> []" unfolding of_base_Nil_iff by blast
    then have "map_of final b
        = Some (Sequence (map snd (sort_key fst (of_base parse_name b ?tev))))"
      by (simp add: final map_of_combine [OF d])
    then show "\<exists>l. map_of final b = Some (Sequence (map snd l))
             \<and> l = sort_key fst (of_base parse_name b ?tev)
             \<and> sorted (map fst l)
             \<and> set l = set (of_base parse_name b ?tev)
             \<and> length l = length (of_base parse_name b ?tev)"
      by simp
  qed
  have 3: "\<forall>k. map_of final k \<noteq> None \<longrightarrow>
          (k \<in> fst ` set (parameters pytrial) \<and> parse_name k = None)
          \<or> (\<exists>n \<in> fst ` set (parameters pytrial). \<exists>i. parse_name n = Some (k, i))"
  proof (intro allI impI)
    fix b assume a: "map_of final b \<noteq> None"
    show "(b \<in> fst ` set (parameters pytrial) \<and> parse_name b = None)
          \<or> (\<exists>n \<in> fst ` set (parameters pytrial). \<exists>i. parse_name n = Some (b, i))"
    proof (cases "of_base parse_name b ?tev = []")
      case True
      with a have "parse_name b = None" "map_of ?tev b \<noteq> None"
        by (auto simp add: final map_of_combine [OF d] split: if_splits)
      then have "b \<in> fst ` set ?tev \<and> parse_name b = None"
        by (simp add: map_of_eq_None_iff)
      then show ?thesis unfolding k by blast
    next
      case False
      then have "\<exists>n \<in> fst ` set ?tev. \<exists>i. parse_name n = Some (b, i)"
        unfolding of_base_Nil_iff by blast
      then show ?thesis unfolding k by blast
    qed
  qed
  have 4: "\<forall>ys. distinct (map fst ys) \<and> set ys = set ?tev
            \<and> (\<forall>n \<in> fst ` set (parameters pytrial). \<forall>n' \<in> fst ` set (parameters pytrial).
                 \<forall>b i. parse_name n = Some (b, i) \<and> parse_name n' = Some (b, i) \<longrightarrow> n = n')
            \<longrightarrow> map_of (combine parse_name ys) = map_of final"
  proof (intro allI impI)
    fix ys
    assume a: "distinct (map fst ys) \<and> set ys = set ?tev
            \<and> (\<forall>n \<in> fst ` set (parameters pytrial). \<forall>n' \<in> fst ` set (parameters pytrial).
                 \<forall>b i. parse_name n = Some (b, i) \<and> parse_name n' = Some (b, i) \<longrightarrow> n = n')"
    then have idx: "\<forall>n \<in> fst ` set ?tev. \<forall>n' \<in> fst ` set ?tev.
                 \<forall>b i. parse_name n = Some (b, i) \<and> parse_name n' = Some (b, i) \<longrightarrow> n = n'"
      unfolding k by blast
    from a have "distinct (map fst ys)" "set ys = set ?tev" by simp_all
    with d show "map_of (combine parse_name ys) = map_of final"
      unfolding final using idx by (intro combine_iteration_order)
  qed
  from 1 2 3 4 show ?thesis by (intro conjI)
qed

text \<open>
  The trial \<open>{x[2]: 3, x[0]: 1, x[1]: 2, y: 7}\<close> is resolved to \<open>{y: 7, x: [1, 2, 3]}\<close>, and the
  recombination of its external values in another order gives the same mapping.
\<close>

theorem multi_dimensional_recombination_witness:
  "pytrial_parameters (\<lambda>v t. v) parse_multi_dimensional_parameter_name space_multi
       \<lparr>parameters = [(''x[2]'', 3), (''x[0]'', 1), (''x[1]'', 2), (''y'', 7)]\<rparr>
     = Inr [(''y'', Scalar 7), (''x'', Sequence [1, 2, 3])]
   \<and> map_of [(''y'', Scalar 7), (''x'', Sequence [1, 2, 3])] ''y'' = Some (Scalar (7::int))
   \<and> map_of [(''y'', Scalar 7), (''x'', Sequence [1, 2, 3])] ''x''
       = Some (Sequence (map snd [(0::int, 1::int), (1, 2), (2, 3)]))
   \<and> map_of (combine parse_multi_dimensional_parameter_name
        [(''y'', 7), (''x[1]'', 2), (''x[0]'', 1), (''x[2]'', 3)])
       = map_of [(''y'', Scalar 7), (''x'', Sequence [1, 2, 3::int])]"
proof -
  note T = multi_dimensional_recombination [where cast = "\<lambda>v t. v"
      and parse_name = parse_multi_dimensional_parameter_name and ss = space_multi
      and pytrial = "\<lparr>parameters = [(''x[2]'', 3), (''x[0]'', 1), (''x[1]'', 2), (''y'', 7)]\<rparr>"
      and final = "[(''y'', Scalar 7), (''x'', Sequence [1, 2, 3])]", OF space_multi_result]
  have c: "\<forall>n \<in> fst ` set (parameters
        \<lparr>parameters = [(''x[2]'', 3::int), (''x[0]'', 1), (''x[1]'', 2), (''y'', 7)]\<rparr>).
      parse_multi_dimensional_parameter_name n = None \<longrightarrow>
        (\<forall>n' \<in> fst ` set (parameters
            \<lparr>parameters = [(''x[2]'', 3::int), (''x[0]'', 1), (''x[1]'', 2), (''y'', 7)]\<rparr>).
          \<forall>i. parse_multi_dimensional_parameter_name n' \<noteq> Some (n, i))"
    by simp
  note U = T [OF c]
  have a: "map_of [(''y'', Scalar 7), (''x'', Sequence [1, 2, 3])] ''y'' = Some (Scalar (7::int))"
    using U [THEN conjunct1, rule_format, of "''y''" 7]
    by (simp add: space_multi_values)
  have b: "map_of [(''y'', Scalar 7), (''x'', Sequence [1, 2, 3])] ''x''
       = Some (Sequence (map snd [(0::int, 1::int), (1, 2), (2, 3)]))"
    using U [THEN conjunct2, THEN conjunct1, rule_format, of "''x[0]''" 1 "''x''" 0]
    by (simp add: space_multi_values of_base_def sort_key_def)
  have e: "map_of (combine parse_multi_dimensional_parameter_name
        [(''y'', 7), (''x[1]'', 2), (''x[0]'', 1), (''x[2]'', 3)])
       = map_of [(''y'', Scalar 7), (''x'', Sequence [1, 2, 3::int])]"
    using U [THEN conjunct2, THEN conjunct2, THEN conjunct2, rule_format,
        of "[(''y'', 7), (''x[1]'', 2), (''x[0]'', 1), (''x[2]'', 3)]"]
    by (simp add: space_multi_values insert_commute)
  from space_multi_result a b e show ?thesis by (intro conjI)
qed

text \<open>
  Claim C4 fails for names without an index when such a name is the base name of a name
  with an index: in the search space with the parameters \<open>x\<close> and \<open>x[0]\<close>, the trial
  \<open>{x: 5, x[0]: 1}\<close> is resolved to \<open>{x: [1]}\<close>, and the value \<open>5\<close> of \<open>x\<close> is lost.
\<close>

theorem plain_name_overwritten_by_base:
  "parse_multi_dimensional_parameter_name ''x'' = None
   \<and> parse_multi_dimensional_parameter_name ''x[0]'' = Some (''x'', 0)
   \<and> trial_to_external_values (\<lambda>v t. v) space_clash
       \<lparr>parameters = [(''x'', 5), (''x[0]'', 1)]\<rparr> = [(''x'', 5), (''x[0]'', 1)]
   \<and> pytrial_parameters (\<lambda>v t. v) parse_multi_dimensional_parameter_name space_clash
       \<lparr>parameters = [(''x'', 5), (''x[0]'', 1)]\<rparr> = Inr [(''x'', Sequence [1])]"
  by (simp add: pytrial_parameters_def Let_def space_clash_values combine_def group_step_def
      sort_key_def)

text \<open>
  Without the condition on the indices the order of the values depends on the iteration
  order: the names \<open>x[0]\<close> and \<open>x[00]\<close> encode the same base name and index, the sort is
  stable, and the two orders of the external values give two different lists.
\<close>

lemma equal_indices_depend_on_order:
  "parse_multi_dimensional_parameter_name ''x[00]'' = Some (''x'', 0)
   \<and> combine parse_multi_dimensional_parameter_name [(''x[0]'', 1::int), (''x[00]'', 2)]
       = [(''x'', Sequence [1, 2])]
   \<and> combine parse_multi_dimensional_parameter_name [(''x[00]'', 2::int), (''x[0]'', 1)]
       = [(''x'', Sequence [2, 1])]"
proof -
  have p: "parse_multi_dimensional_parameter_name ''x[00]'' = Some (''x'', 0)"
    by (simp add: parse_multi_dimensional_parameter_name_def is_digit_def digits_value_def)
  show ?thesis
    by (simp add: p combine_def group_step_def sort_key_def)
qed

end
